theory Spec2Isabelle
  imports Main
begin

section \<open>JavaScript helpers\<close>

text \<open>
  Strings of the program are modelled as \<open>string\<close> (ASCII). A value that may be
  \<open>undefined\<close> or \<open>null\<close> is an \<open>option\<close>. The operator \<open>a || b\<close> on a possibly
  missing string yields \<open>b\<close> when \<open>a\<close> is missing or the empty string (both falsy).
\<close>

definition js_or :: "string option \<Rightarrow> string \<Rightarrow> string" where
  "js_or a b = (case a of None \<Rightarrow> b | Some v \<Rightarrow> if v = [] then b else v)"

text \<open>
  A thrown error: an \<open>Error\<close> made by the program, with its message, or the
  \<open>TypeError\<close> that reading a property of \<open>undefined\<close> raises.
\<close>

datatype js_error = Error string | TypeError

definition digit_char :: "nat \<Rightarrow> char" where
  "digit_char d = ''0123456789'' ! d"

text \<open>Decimal rendering of a non-negative integer, as a template literal prints it.\<close>

fun string_of_nat :: "nat \<Rightarrow> string" where
  "string_of_nat n =
     (if n < 10 then [digit_char n]
      else string_of_nat (n div 10) @ [digit_char (n mod 10)])"

declare string_of_nat.simps [simp del]

section \<open>Tasks and the task manager (agent module)\<close>

text \<open>
  \<open>TaskStatus\<close> is an object of string constants; a task's status is a string, and
  \<open>updateTaskStatus\<close> stores any other string unchanged through its default branch.
\<close>

type_synonym TaskStatus = string

definition PENDING :: TaskStatus where "PENDING = ''pending''"
definition IN_PROGRESS :: TaskStatus where "IN_PROGRESS = ''in_progress''"
definition COMPLETED :: TaskStatus where "COMPLETED = ''completed''"
definition FAILED :: TaskStatus where "FAILED = ''failed''"
definition BLOCKED :: TaskStatus where "BLOCKED = ''blocked''"

text \<open>
  Results, errors and metadata are opaque to the manager; they are carried as strings
  (\<open>None\<close> is \<open>null\<close>). Times are the milliseconds of \<open>Date.now()\<close>, passed in by
  the caller of the model.
\<close>

record Task =
  task_id :: string
  description :: string
  activeForm :: string
  status :: TaskStatus
  dependencies :: "string list"
  result :: "string option"
  error :: "string option"
  startTime :: "nat option"
  endTime :: "nat option"
  metadata :: "(string \<times> string) list"

record TaskOptions =
  opt_id :: "string option"
  opt_activeForm :: "string option"
  opt_status :: "string option"
  opt_dependencies :: "string list option"
  opt_metadata :: "(string \<times> string) list option"

definition no_options :: TaskOptions where
  "no_options = \<lparr> opt_id = None, opt_activeForm = None, opt_status = None,
     opt_dependencies = None, opt_metadata = None \<rparr>"

text \<open>The constructor of \<open>Task\<close>.\<close>

definition Task_new :: "string \<Rightarrow> string \<Rightarrow> TaskOptions \<Rightarrow> Task" where
  "Task_new i d options =
     \<lparr> task_id = i,
       description = d,
       activeForm = js_or (opt_activeForm options) (d @ ''...''),
       status = js_or (opt_status options) PENDING,
       dependencies = (case opt_dependencies options of None \<Rightarrow> [] | Some ds \<Rightarrow> ds),
       result = None,
       error = None,
       startTime = None,
       endTime = None,
       metadata = (case opt_metadata options of None \<Rightarrow> [] | Some m \<Rightarrow> m) \<rparr>"

definition start :: "nat \<Rightarrow> Task \<Rightarrow> Task" where
  "start now t = t\<lparr> status := IN_PROGRESS, startTime := Some now \<rparr>"

definition complete :: "string option \<Rightarrow> nat \<Rightarrow> Task \<Rightarrow> Task" where
  "complete r now t = t\<lparr> status := COMPLETED, result := r, endTime := Some now \<rparr>"

definition fail :: "string option \<Rightarrow> nat \<Rightarrow> Task \<Rightarrow> Task" where
  "fail e now t = t\<lparr> status := FAILED, error := e, endTime := Some now \<rparr>"

definition block :: "string option \<Rightarrow> Task \<Rightarrow> Task" where
  "block reason t = t\<lparr> status := BLOCKED, error := reason \<rparr>"

text \<open>
  The manager: \<open>tasks\<close> is the \<open>Map\<close> from id to task, \<open>taskOrder\<close> the array of
  ids in insertion order, \<open>nextId\<close> the counter of generated ids.
\<close>

record TaskManager =
  tasks :: "string \<rightharpoonup> Task"
  taskOrder :: "string list"
  nextId :: nat

definition TaskManager_new :: TaskManager where
  "TaskManager_new = \<lparr> tasks = Map.empty, taskOrder = [], nextId = 1 \<rparr>"

text \<open>
  \<open>addTask\<close>: the id is \<open>options.id || `task_${this.nextId++}`\<close>; the counter only
  advances when the right operand is evaluated. The task is stored under the id with
  \<open>Map.set\<close> and the id is pushed on \<open>taskOrder\<close>. The function has no other branch.
\<close>

definition addTask :: "TaskManager \<Rightarrow> string \<Rightarrow> TaskOptions \<Rightarrow> Task \<times> TaskManager" where
  "addTask tm d options =
     (let generate = (case opt_id options of None \<Rightarrow> True | Some v \<Rightarrow> v = []);
          i = (if generate then ''task_'' @ string_of_nat (nextId tm) else the (opt_id options));
          n = (if generate then nextId tm + 1 else nextId tm);
          task = Task_new i d options
      in (task, \<lparr> tasks = (tasks tm)(i \<mapsto> task), taskOrder = taskOrder tm @ [i], nextId = n \<rparr>))"

definition getTask :: "TaskManager \<Rightarrow> string \<Rightarrow> Task option" where
  "getTask tm i = tasks tm i"

text \<open>The payload of \<open>updateTaskStatus\<close>: the fields \<open>result\<close>, \<open>error\<close>, \<open>reason\<close>.\<close>

record StatusData =
  data_result :: "string option"
  data_error :: "string option"
  data_reason :: "string option"

definition no_data :: StatusData where
  "no_data = \<lparr> data_result = None, data_error = None, data_reason = None \<rparr>"

definition updateTaskStatus ::
  "TaskManager \<Rightarrow> string \<Rightarrow> TaskStatus \<Rightarrow> StatusData \<Rightarrow> nat \<Rightarrow> bool \<times> TaskManager" where
  "updateTaskStatus tm i st data now =
     (case tasks tm i of
        None \<Rightarrow> (False, tm)
      | Some task \<Rightarrow>
          (let task' =
                (if st = IN_PROGRESS then start now task
                 else if st = COMPLETED then complete (data_result data) now task
                 else if st = FAILED then fail (data_error data) now task
                 else if st = BLOCKED then block (data_reason data) task
                 else task\<lparr> status := st \<rparr>)
           in (True, tm\<lparr> tasks := (tasks tm)(i \<mapsto> task') \<rparr>)))"

definition startTask :: "TaskManager \<Rightarrow> string \<Rightarrow> nat \<Rightarrow> bool \<times> TaskManager" where
  "startTask tm i now = updateTaskStatus tm i IN_PROGRESS no_data now"

definition completeTask :: "TaskManager \<Rightarrow> string \<Rightarrow> string option \<Rightarrow> nat \<Rightarrow> bool \<times> TaskManager" where
  "completeTask tm i r now = updateTaskStatus tm i COMPLETED (no_data\<lparr> data_result := r \<rparr>) now"

definition failTask :: "TaskManager \<Rightarrow> string \<Rightarrow> string option \<Rightarrow> nat \<Rightarrow> bool \<times> TaskManager" where
  "failTask tm i e now = updateTaskStatus tm i FAILED (no_data\<lparr> data_error := e \<rparr>) now"

text \<open>
  \<open>Task.canExecute\<close>: false unless the status is pending; the loop over the
  dependencies returns false at the first one that is unknown or not completed.
\<close>

definition canExecute :: "Task \<Rightarrow> TaskManager \<Rightarrow> bool" where
  "canExecute t tm =
     (if status t \<noteq> PENDING then False
      else list_all (\<lambda>depId. case getTask tm depId of
                                None \<Rightarrow> False
                              | Some depTask \<Rightarrow> status depTask = COMPLETED)
             (dependencies t))"

text \<open>
  \<open>getAllTasks\<close> maps \<open>taskOrder\<close> through the map; an id without a task gives
  \<open>undefined\<close>, here \<open>None\<close>. Every id on \<open>taskOrder\<close> was stored by \<open>addTask\<close>
  and \<open>clear\<close> empties both, so this does not happen in a manager built by its
  methods; where it does, reading the task's status throws.
\<close>

definition getAllTasks :: "TaskManager \<Rightarrow> Task option list" where
  "getAllTasks tm = map (tasks tm) (taskOrder tm)"

fun first_executable :: "TaskManager \<Rightarrow> string list \<Rightarrow> js_error + Task option" where
  "first_executable tm [] = Inr None"
| "first_executable tm (i # ids) =
     (case tasks tm i of
        None \<Rightarrow> Inl TypeError
      | Some task \<Rightarrow> if canExecute task tm then Inr (Some task) else first_executable tm ids)"

definition getNextExecutableTask :: "TaskManager \<Rightarrow> js_error + Task option" where
  "getNextExecutableTask tm = first_executable tm (taskOrder tm)"

record Progress =
  total :: nat
  completed :: nat
  inProgress :: nat
  failed :: nat
  blocked :: nat
  pending :: nat
  percentage :: nat

definition count_status :: "Task list \<Rightarrow> TaskStatus \<Rightarrow> nat" where
  "count_status all st = length (filter (\<lambda>t. status t = st) all)"

text \<open>
  \<open>Math.round((c / n) * 100)\<close>, in exact arithmetic: \<open>Math.round\<close> rounds to the
  nearest integer, halves upwards, which on the exact quotient is \<open>(200 c + n) div
  (2 n)\<close>. The program computes in doubles; the two agree wherever \<open>c / n\<close> and its
  product with 100 are exact, as for one task of two (\<open>0.5\<close>, \<open>50\<close>), and may differ
  by one where the exact value ends in a half and the double falls below it.
\<close>

definition round_percent :: "nat \<Rightarrow> nat \<Rightarrow> nat" where
  "round_percent c n = (200 * c + n) div (2 * n)"

definition getProgress :: "TaskManager \<Rightarrow> js_error + Progress" where
  "getProgress tm =
     (if None \<in> set (getAllTasks tm) then Inl TypeError
      else
        (let all = map the (getAllTasks tm);
             n = length all;
             c = count_status all COMPLETED
         in Inr \<lparr> total = n,
                  completed = c,
                  inProgress = count_status all IN_PROGRESS,
                  failed = count_status all FAILED,
                  blocked = count_status all BLOCKED,
                  pending = count_status all PENDING,
                  percentage = (if n > 0 then round_percent c n else 0) \<rparr>))"

section \<open>The parallel tool executor (tools module)\<close>

text \<open>
  A tool call is \<open>{name, args, dependencies?}\<close>; the dependencies are indices into
  the batch and may be absent. The executing capability is anything with
  \<open>execute(name, args)\<close> returning a promise (an \<open>async\<close> function, as
  \<open>ToolExecutor.execute\<close> is): the promise is fulfilled with a result or rejected with
  an error message. A result is any value; one that carries an \<open>error\<close> field is
  still a fulfilled promise. The capability may have state; the model threads it
  through the invocations in the order in which \<open>execute\<close> is invoked.
\<close>

record ToolCall =
  name :: string
  args :: "(string \<times> string) list"
  call_dependencies :: "nat list option"

datatype 'r outcome = Fulfilled 'r | Rejected string

type_synonym ('s, 'r) executor = "'s \<Rightarrow> string \<Rightarrow> (string \<times> string) list \<Rightarrow> 'r outcome \<times> 's"

text \<open>
  The entries of the result arrays: \<open>{success: true, result, tool}\<close> and
  \<open>{success: false, error, tool}\<close>.
\<close>

datatype 'r exec_record = SuccessRec 'r string | FailureRec string string

fun is_failure :: "'r exec_record \<Rightarrow> bool" where
  "is_failure (SuccessRec r t) = False"
| "is_failure (FailureRec m t) = True"

fun tool :: "'r exec_record \<Rightarrow> string" where
  "tool (SuccessRec r t) = t"
| "tool (FailureRec m t) = t"

definition record_of :: "'r outcome \<Rightarrow> string \<Rightarrow> 'r exec_record" where
  "record_of oc t = (case oc of Fulfilled r \<Rightarrow> SuccessRec r t | Rejected m \<Rightarrow> FailureRec m t)"

text \<open>
  A capability instrumented with a log of the invocations it receives; the log is
  how the theorems below observe which calls were attempted, and in which order.
\<close>

definition logged :: "('s, 'r) executor \<Rightarrow> ('s \<times> (string \<times> (string \<times> string) list) list, 'r) executor" where
  "logged ex = (\<lambda>(s, lg) n a. case ex s n a of (oc, s') \<Rightarrow> (oc, (s', lg @ [(n, a)])))"

subsection \<open>executeSequential\<close>

text \<open>
  The \<open>for\<close> loop over the calls with its accumulator \<open>results\<close>: a fulfilled call
  pushes a success entry and the loop goes on; a rejected call pushes a failure entry
  and breaks.
\<close>

fun seq_loop :: "('s, 'r) executor \<Rightarrow> 's \<Rightarrow> 'r exec_record list \<Rightarrow> ToolCall list
    \<Rightarrow> 'r exec_record list \<times> 's" where
  "seq_loop ex s results [] = (results, s)"
| "seq_loop ex s results (c # cs) =
     (case ex s (name c) (args c) of
        (Fulfilled r, s') \<Rightarrow> seq_loop ex s' (results @ [SuccessRec r (name c)]) cs
      | (Rejected m, s') \<Rightarrow> (results @ [FailureRec m (name c)], s'))"

definition executeSequential :: "('s, 'r) executor \<Rightarrow> 's \<Rightarrow> ToolCall list
    \<Rightarrow> 'r exec_record list \<times> 's" where
  "executeSequential ex s toolCalls = seq_loop ex s [] toolCalls"

subsection \<open>executeWithDependencies\<close>

text \<open>
  The two ways in which \<open>executeWithDependencies\<close> throws: its own
  \<open>Error('Cannot execute tools: circular or missing dependencies')\<close>, and the
  rejection of a call of the batch, which \<open>Promise.all\<close> passes on.
\<close>

datatype dep_error =
    CircularOrMissingDependency
  | CallRejected string

text \<open>
  \<open>executed\<close> is a \<open>Set\<close> of indices, kept as a list in insertion order; its size is
  the number of distinct members.
\<close>

definition set_size :: "nat list \<Rightarrow> nat" where
  "set_size xs = length (remdups xs)"

definition canExecute_call :: "nat list \<Rightarrow> ToolCall \<Rightarrow> bool" where
  "canExecute_call executed c =
     (case call_dependencies c of
        None \<Rightarrow> True
      | Some ds \<Rightarrow> if length ds = 0 then True else list_all (\<lambda>dep. dep \<in> set executed) ds)"

text \<open>
  The ready set of one round: the \<open>forEach\<close> visits the indices in order and keeps
  those not yet executed whose dependencies are all executed. \<open>executed\<close> only grows
  when a call has completed, which is after the \<open>forEach\<close> has ended.
\<close>

definition ready :: "ToolCall list \<Rightarrow> nat list \<Rightarrow> nat list" where
  "ready toolCalls executed =
     filter (\<lambda>i. i \<notin> set executed \<and> canExecute_call executed (toolCalls ! i)) [0..<length toolCalls]"

text \<open>
  \<open>executeCall\<close> is invoked for every index of the ready set, in order; each
  invocation calls the capability at once.
\<close>

fun run_batch :: "('s, 'r) executor \<Rightarrow> 's \<Rightarrow> ToolCall list \<Rightarrow> nat list
    \<Rightarrow> (nat \<times> 'r outcome) list \<times> 's" where
  "run_batch ex s toolCalls [] = ([], s)"
| "run_batch ex s toolCalls (i # is) =
     (case ex s (name (toolCalls ! i)) (args (toolCalls ! i)) of
        (oc, s') \<Rightarrow> (case run_batch ex s' toolCalls is of
                      (ocs, s'') \<Rightarrow> ((i, oc) # ocs, s'')))"

text \<open>
  A fulfilled call stores its result and joins \<open>executed\<close>; a rejected call makes
  \<open>executeCall\<close> reject before either.
\<close>

fun record_fulfilled :: "(nat \<rightharpoonup> 'r) \<times> nat list \<Rightarrow> (nat \<times> 'r outcome) list \<Rightarrow> (nat \<rightharpoonup> 'r) \<times> nat list" where
  "record_fulfilled (results, executed) [] = (results, executed)"
| "record_fulfilled (results, executed) ((i, Fulfilled r) # ocs) =
     record_fulfilled (results(i \<mapsto> r), executed @ [i]) ocs"
| "record_fulfilled (results, executed) ((i, Rejected m) # ocs) =
     record_fulfilled (results, executed) ocs"

fun first_rejection :: "(nat \<times> 'r outcome) list \<Rightarrow> string option" where
  "first_rejection [] = None"
| "first_rejection ((i, Fulfilled r) # ocs) = first_rejection ocs"
| "first_rejection ((i, Rejected m) # ocs) = Some m"

definition remaining :: "ToolCall list \<Rightarrow> nat list \<Rightarrow> nat" where
  "remaining toolCalls executed = length (filter (\<lambda>i. i \<notin> set executed) [0..<length toolCalls])"

text \<open>Facts about one round, used for the termination of the loop.\<close>

lemma run_batch_indices: "map fst (fst (run_batch ex s toolCalls js)) = js"
proof (induction js arbitrary: s)
  case Nil
  show ?case by simp
next
  case (Cons j js)
  obtain oc s' where e: "ex s (name (toolCalls ! j)) (args (toolCalls ! j)) = (oc, s')"
    by (cases "ex s (name (toolCalls ! j)) (args (toolCalls ! j))")
  obtain ocs s'' where r: "run_batch ex s' toolCalls js = (ocs, s'')"
    by (cases "run_batch ex s' toolCalls js")
  from Cons.IH [of s'] r have "map fst ocs = js" by simp
  with e r show ?case by simp
qed

lemma record_fulfilled_all:
  "first_rejection ocs = None \<Longrightarrow>
   snd (record_fulfilled (results, executed) ocs) = executed @ map fst ocs"
proof (induction ocs arbitrary: results executed)
  case Nil
  then show ?case by simp
next
  case (Cons p ocs)
  obtain i oc where p: "p = (i, oc)" by (cases p)
  show ?case
  proof (cases oc)
    case (Fulfilled r)
    with Cons p show ?thesis by simp
  next
    case (Rejected m)
    with Cons p show ?thesis by simp
  qed
qed

lemma remaining_decreases:
  assumes "ready toolCalls executed \<noteq> []"
  shows "remaining toolCalls (executed @ ready toolCalls executed) < remaining toolCalls executed"
proof -
  from assms obtain j where j: "j \<in> set (ready toolCalls executed)"
    by (cases "ready toolCalls executed") auto
  then have jn: "j < length toolCalls" and je: "j \<notin> set executed"
    by (auto simp: ready_def)
  let ?P = "\<lambda>i. i \<notin> set (executed @ ready toolCalls executed)"
  let ?Q = "\<lambda>i. i \<notin> set executed"
  let ?xs = "filter ?Q [0..<length toolCalls]"
  have eq: "filter ?P [0..<length toolCalls] = filter ?P ?xs"
    by (auto intro: filter_cong)
  have "j \<in> set ?xs" using jn je by simp
  moreover have "\<not> ?P j" using j by simp
  ultimately have "length (filter ?P ?xs) < length ?xs"
    by (rule length_filter_less)
  with eq show ?thesis by (simp add: remaining_def)
qed

text \<open>
  The \<open>while\<close> loop. Its state is the capability's state, the \<open>results\<close> map and
  the \<open>executed\<close> set; \<open>started\<close> is an observation added by the model: the indices
  on which the capability has been invoked, in order. A round with an empty batch throws
  the deadlock error. Otherwise \<open>Promise.all\<close> awaits the batch: if a call of the batch
  is rejected the function rejects with that error (the model reports the rejected call
  of least index), else the loop goes on. After the loop the results are read in the
  order of the calls.
\<close>

function ewd_loop :: "('s, 'r) executor \<Rightarrow> ToolCall list \<Rightarrow> 's \<Rightarrow> (nat \<rightharpoonup> 'r) \<Rightarrow> nat list \<Rightarrow> nat list
    \<Rightarrow> (dep_error + 'r option list) \<times> 's \<times> nat list" where
  "ewd_loop ex toolCalls s results executed started =
     (if set_size executed < length toolCalls then
        (let batch = ready toolCalls executed in
         if length batch = 0 then (Inl CircularOrMissingDependency, s, started)
         else
           (case run_batch ex s toolCalls batch of
              (ocs, s') \<Rightarrow>
                (case record_fulfilled (results, executed) ocs of
                   (results', executed') \<Rightarrow>
                     (case first_rejection ocs of
                        Some m \<Rightarrow> (Inl (CallRejected m), s', started @ batch)
                      | None \<Rightarrow> ewd_loop ex toolCalls s' results' executed' (started @ batch)))))
      else (Inr (map results [0..<length toolCalls]), s, started))"
  by pat_completeness auto
termination
proof (relation "measure (\<lambda>(ex, toolCalls, s, results, executed, started). remaining toolCalls executed)")
  show "wf (measure (\<lambda>(ex, toolCalls, s, results, executed, started). remaining toolCalls executed))"
    by simp
next
  fix ex :: "('s, 'r) executor" and toolCalls s and results :: "nat \<rightharpoonup> 'r" and executed started :: "nat list"
    and batch ocs s' results' executed'
  assume b: "batch = ready toolCalls executed" and ne: "length batch \<noteq> 0"
    and rb: "(ocs, s') = run_batch ex s toolCalls batch"
    and rf: "(results', executed') = record_fulfilled (results, executed) ocs"
    and fr: "first_rejection ocs = None"
  from rb have "map fst ocs = batch"
    using run_batch_indices [of ex s toolCalls batch] by (metis fst_conv)
  moreover from rf fr have "executed' = executed @ map fst ocs"
    using record_fulfilled_all [of ocs results executed] by (metis snd_conv)
  ultimately have "executed' = executed @ ready toolCalls executed" using b by simp
  moreover from ne b have "ready toolCalls executed \<noteq> []" by simp
  ultimately have "remaining toolCalls executed' < remaining toolCalls executed"
    using remaining_decreases by simp
  then show "((ex, toolCalls, s', results', executed', started @ batch), ex, toolCalls, s, results, executed, started)
      \<in> measure (\<lambda>(ex, toolCalls, s, results, executed, started). remaining toolCalls executed)"
    by simp
qed

declare ewd_loop.simps [simp del]

definition executeWithDependencies :: "('s, 'r) executor \<Rightarrow> 's \<Rightarrow> ToolCall list
    \<Rightarrow> (dep_error + 'r option list) \<times> 's \<times> nat list" where
  "executeWithDependencies ex s toolCalls = ewd_loop ex toolCalls s Map.empty [] []"

subsection \<open>executeParallel\<close>

text \<open>
  The scheduler of \<open>executeParallel\<close> as a machine. Its state is the \<open>queue\<close> of
  calls paired with their indices, the set \<open>executing\<close> of promises in flight, the
  \<open>results\<close> array (\<open>None\<close> is an empty slot) and the capability's state. A promise in
  flight is kept as the index and tool name of its call together with the outcome with
  which the capability's promise will settle.
\<close>

definition maxConcurrent :: nat where
  "maxConcurrent = 5"

record ('s, 'r) par_state =
  queue :: "(ToolCall \<times> nat) list"
  executing :: "(nat \<times> string \<times> 'r outcome) list"
  par_results :: "'r exec_record option list"
  cap_state :: 's

text \<open>
  \<open>executeNext\<close>, the part that runs at once when it is called: nothing to do on an
  empty queue; otherwise take the head of the queue, invoke the capability, add the
  promise to \<open>executing\<close> and, while fewer than \<open>maxConcurrent\<close> promises are in
  flight and the queue is not empty, call itself again.
\<close>

function executeNext :: "('s, 'r) executor \<Rightarrow> ('s, 'r) par_state \<Rightarrow> ('s, 'r) par_state" where
  "executeNext ex st =
     (case queue st of
        [] \<Rightarrow> st
      | (call, idx) # rest \<Rightarrow>
          (case ex (cap_state st) (name call) (args call) of
             (oc, s') \<Rightarrow>
               (let st1 = st\<lparr> queue := rest,
                               executing := executing st @ [(idx, name call, oc)],
                               cap_state := s' \<rparr>
                in if length (executing st1) < maxConcurrent \<and> length (queue st1) > 0
                   then executeNext ex st1 else st1)))"
  by pat_completeness auto
termination
  by (relation "measure (\<lambda>(ex, st). length (queue st))") auto

declare executeNext.simps [simp del]

text \<open>
  A promise in flight settles: its \<open>then\<close> or \<open>catch\<close> handler writes the entry at
  the call's own index, its \<open>finally\<close> handler removes the promise from \<open>executing\<close>
  and calls \<open>executeNext\<close>. The handlers of one promise are taken as one step; the
  entry written by the first is to a slot that no other handler touches.
\<close>

definition settle :: "('s, 'r) executor \<Rightarrow> nat \<Rightarrow> ('s, 'r) par_state \<Rightarrow> ('s, 'r) par_state" where
  "settle ex k st =
     (case executing st ! k of
        (idx, t, oc) \<Rightarrow>
          executeNext ex
            (st\<lparr> par_results := (par_results st)[idx := Some (record_of oc t)],
                 executing := take k (executing st) @ drop (Suc k) (executing st) \<rparr>))"

text \<open>The initial \<open>for\<close> loop calls \<open>executeNext\<close> the given number of times.\<close>

fun start_initial :: "('s, 'r) executor \<Rightarrow> nat \<Rightarrow> ('s, 'r) par_state \<Rightarrow> ('s, 'r) par_state" where
  "start_initial ex 0 st = st"
| "start_initial ex (Suc n) st = start_initial ex n (executeNext ex st)"

lemma executeNext_in_flight:
  "length (queue (executeNext ex st)) + length (executing (executeNext ex st))
   = length (queue st) + length (executing st)"
proof (induction ex st rule: executeNext.induct)
  case (1 ex st)
  show ?case
  proof (cases "queue st")
    case Nil
    then show ?thesis by (simp add: executeNext.simps [of ex st])
  next
    case (Cons p rest)
    obtain call idx where p: "p = (call, idx)" by (cases p)
    obtain oc s' where e: "ex (cap_state st) (name call) (args call) = (oc, s')"
      by (cases "ex (cap_state st) (name call) (args call)")
    let ?st1 = "st\<lparr> queue := rest, executing := executing st @ [(idx, name call, oc)], cap_state := s' \<rparr>"
    show ?thesis
    proof (cases "length (executing ?st1) < maxConcurrent \<and> length (queue ?st1) > 0")
      case True
      with Cons p e have "executeNext ex st = executeNext ex ?st1"
        by (simp add: executeNext.simps [of ex st] Let_def)
      moreover have "length (queue (executeNext ex ?st1)) + length (executing (executeNext ex ?st1))
           = length (queue ?st1) + length (executing ?st1)"
        using "1.IH" [OF Cons p [symmetric] e [symmetric] refl True] .
      ultimately show ?thesis using Cons by simp
    next
      case False
      with Cons p e have "executeNext ex st = ?st1"
        by (auto simp: executeNext.simps [of ex st] Let_def)
      then show ?thesis using Cons by simp
    qed
  qed
qed

text \<open>
  The function returns when every promise has settled. Which promise in flight settles
  next is not decided by the program: the schedule \<open>sched\<close> picks it (position \<open>k mod
  n\<close> among the \<open>n\<close> in flight; the first one when the schedule is used up).
\<close>

function drain :: "('s, 'r) executor \<Rightarrow> nat list \<Rightarrow> ('s, 'r) par_state \<Rightarrow> ('s, 'r) par_state" where
  "drain ex sched st =
     (if executing st = [] then st
      else (case sched of
              [] \<Rightarrow> drain ex [] (settle ex 0 st)
            | k # ks \<Rightarrow> drain ex ks (settle ex (k mod length (executing st)) st)))"
  by pat_completeness auto
termination
proof (relation "measure (\<lambda>(ex, sched, st). length (queue st) + length (executing st))")
  show "wf (measure (\<lambda>(ex, sched, st). length (queue st) + length (executing st)))" by simp
next
  fix ex :: "('s, 'r) executor" and sched :: "nat list" and st :: "('s, 'r) par_state"
  assume ne: "executing st \<noteq> []"
  have "length (queue (settle ex 0 st)) + length (executing (settle ex 0 st))
      < length (queue st) + length (executing st)"
    using ne by (cases "executing st") (auto simp: settle_def executeNext_in_flight split: prod.splits)
  then show "((ex, [], settle ex 0 st), ex, sched, st)
      \<in> measure (\<lambda>(ex, sched, st). length (queue st) + length (executing st))"
    by simp
next
  fix ex :: "('s, 'r) executor" and sched :: "nat list" and st :: "('s, 'r) par_state" and k ks
  assume ne: "executing st \<noteq> []"
  let ?j = "k mod length (executing st)"
  have j: "?j < length (executing st)" using ne by simp
  have "?j + (length (executing st) - Suc ?j) < length (executing st)"
    using j by arith
  then have "length (queue (settle ex ?j st)) + length (executing (settle ex ?j st))
      < length (queue st) + length (executing st)"
    using j by (auto simp: settle_def executeNext_in_flight split: prod.splits)
  then show "((ex, ks, settle ex ?j st), ex, sched, st)
      \<in> measure (\<lambda>(ex, sched, st). length (queue st) + length (executing st))"
    by simp
qed

declare drain.simps [simp del]

definition executeParallel :: "('s, 'r) executor \<Rightarrow> 's \<Rightarrow> nat list \<Rightarrow> ToolCall list
    \<Rightarrow> 'r exec_record option list \<times> 's" where
  "executeParallel ex s sched toolCalls =
     (let st0 = \<lparr> queue = zip toolCalls [0..<length toolCalls],
                  executing = [],
                  par_results = replicate (length toolCalls) None,
                  cap_state = s \<rparr>;
          st1 = start_initial ex (min maxConcurrent (length toolCalls)) st0;
          st2 = drain ex sched st1
      in (par_results st2, cap_state st2))"

section \<open>Shell sessions (shell module)\<close>

subsection \<open>Strings and maps of the host language\<close>

text \<open>
  White space as \<open>String.prototype.trim\<close> and the class \<open>\s\<close> see it, and the line
  terminators that \<open>.\<close> does not match, both within ASCII.
\<close>

definition is_space :: "char \<Rightarrow> bool" where
  "is_space c = (c \<in> set [CHR '' '', CHR 0x09, CHR 0x0A, CHR 0x0B, CHR 0x0C, CHR 0x0D])"

definition is_line_terminator :: "char \<Rightarrow> bool" where
  "is_line_terminator c = (c \<in> set [CHR 0x0A, CHR 0x0D])"

definition trim :: "string \<Rightarrow> string" where
  "trim s = rev (dropWhile is_space (rev (dropWhile is_space s)))"

definition startsWith :: "string \<Rightarrow> string \<Rightarrow> bool" where
  "startsWith s p = (take (length p) s = p)"

text \<open>
  A \<open>Map\<close> whose iteration order matters is a list of pairs without repeated keys:
  \<open>set\<close> replaces the value of a present key in place and appends a new key.
\<close>

fun map_set :: "'k \<Rightarrow> 'v \<Rightarrow> ('k \<times> 'v) list \<Rightarrow> ('k \<times> 'v) list" where
  "map_set k v [] = [(k, v)]"
| "map_set k v ((k', v') # kvs) =
     (if k' = k then (k, v) # kvs else (k', v') # map_set k v kvs)"

definition map_delete :: "'k \<Rightarrow> ('k \<times> 'v) list \<Rightarrow> ('k \<times> 'v) list" where
  "map_delete k kvs = filter (\<lambda>kv. fst kv \<noteq> k) kvs"

subsection \<open>The world outside the program\<close>

text \<open>
  What the session reads from its host: the working directory and environment of the
  process, the file system as seen by \<open>fs.stat\<close> (\<open>None\<close> when \<open>stat\<close> throws), and
  the two functions of the \<open>path\<close> library that \<open>_handleCd\<close> calls. The library
  functions are parameters of the model.
\<close>

datatype file_kind = Directory | NotDirectory

record world =
  process_cwd :: string
  process_env :: "(string \<times> string) list"
  fs_stat :: "string \<Rightarrow> file_kind option"
  path_isAbsolute :: "string \<Rightarrow> bool"
  path_resolve :: "string \<Rightarrow> string \<Rightarrow> string"

text \<open>\<open>process.env.HOME || process.env.USERPROFILE\<close>; \<open>None\<close> is \<open>undefined\<close>.\<close>

definition home_dir :: "world \<Rightarrow> string option" where
  "home_dir w =
     (case map_of (process_env w) ''HOME'' of
        None \<Rightarrow> map_of (process_env w) ''USERPROFILE''
      | Some h \<Rightarrow> if h = [] then map_of (process_env w) ''USERPROFILE'' else Some h)"

subsection \<open>Sessions\<close>

text \<open>
  The value a command resolves with; the fields \<open>background\<close> and \<open>pid\<close> are absent
  (\<open>False\<close>, \<open>None\<close>) except for a background command, and \<open>exitCode\<close> may be
  \<open>null\<close>. A history entry, the record of a background process (the child is known by
  its pid; \<open>completed\<close> and \<open>exitCode\<close> are unset until the child exits) and the
  session follow.
\<close>

record CmdResult =
  stdout :: string
  stderr :: string
  exitCode :: "int option"
  duration :: int
  background :: bool
  pid :: "nat option"

record HistoryEntry =
  h_command :: string
  h_timestamp :: nat
  h_cwd :: string
  h_stdout :: string
  h_stderr :: string
  h_exitCode :: "int option"
  h_duration :: int

record BackgroundProcess =
  bg_process :: nat
  bg_command :: string
  bg_startTime :: nat
  bg_stdout :: "string list"
  bg_stderr :: "string list"
  bg_completed :: bool
  bg_exitCode :: "int option"

record ShellSession =
  session_id :: string
  cwd :: string
  env :: "(string \<times> string) list"
  history :: "HistoryEntry list"
  backgroundProcesses :: "(string \<times> BackgroundProcess) list"
  createdAt :: nat

text \<open>
  The constructor as the manager calls it, with empty options: the working directory
  and the environment are those of the process.
\<close>

definition ShellSession_new :: "world \<Rightarrow> string \<Rightarrow> nat \<Rightarrow> ShellSession" where
  "ShellSession_new w i now =
     \<lparr> session_id = i, cwd = process_cwd w, env = process_env w, history = [],
       backgroundProcesses = [], createdAt = now \<rparr>"

text \<open>
  The match of \<open>/cd\s+(.+)/\<close>, first at a given position: after \<open>cd\<close> the class
  \<open>\s+\<close> takes the longest run of white space and gives characters back one at a
  time until the group \<open>(.+)\<close> finds a first character that is not a line terminator;
  the group then runs to the next line terminator or the end. The result is the group.
\<close>

definition match_cd_here :: "string \<Rightarrow> string option" where
  "match_cd_here s =
     (if startsWith s ''cd'' then
        (let rest = drop 2 s;
             n = length (takeWhile is_space rest)
         in case find (\<lambda>k. drop k rest \<noteq> [] \<and> \<not> is_line_terminator (hd (drop k rest)))
                   (rev [1..<Suc n]) of
              None \<Rightarrow> None
            | Some k \<Rightarrow> Some (takeWhile (\<lambda>c. \<not> is_line_terminator c) (drop k rest)))
      else None)"

text \<open>The leftmost position with a match wins.\<close>

fun match_cd :: "string \<Rightarrow> string option" where
  "match_cd [] = None"
| "match_cd (c # cs) =
     (case match_cd_here (c # cs) of
        Some g \<Rightarrow> Some g
      | None \<Rightarrow> match_cd cs)"

text \<open>
  \<open>replace(/^["']|["']$/g, '')\<close>: a quote at the start is removed, then a quote at
  the end of what follows.
\<close>

definition is_quote :: "char \<Rightarrow> bool" where
  "is_quote c = (c \<in> set [CHR 0x22, CHR 0x27])"

definition strip_quotes :: "string \<Rightarrow> string" where
  "strip_quotes s =
     (let s1 = (if s \<noteq> [] \<and> is_quote (hd s) then tl s else s)
      in if s1 \<noteq> [] \<and> is_quote (last s1) then butlast s1 else s1)"

text \<open>
  The target of a \<open>cd\<close> command as \<open>_handleCd\<close> computes it from the group of the
  match: trimmed, quotes removed, a leading \<open>~\<close> replaced by the home directory (the
  text \<open>undefined\<close> when there is none; the home directory is taken to contain no
  \<open>$\<close>, which \<open>replace\<close> would read as a pattern).
\<close>

definition cd_target :: "world \<Rightarrow> string \<Rightarrow> string" where
  "cd_target w g =
     (let targetDir = strip_quotes (trim g)
      in if startsWith targetDir ''~''
         then (case home_dir w of None \<Rightarrow> ''undefined'' | Some h \<Rightarrow> h) @ tl targetDir
         else targetDir)"

definition cd_newCwd :: "world \<Rightarrow> ShellSession \<Rightarrow> string \<Rightarrow> string" where
  "cd_newCwd w s targetDir =
     (if path_isAbsolute w targetDir then targetDir else path_resolve w (cwd s) targetDir)"

definition cd_result :: "string \<Rightarrow> string \<Rightarrow> int \<Rightarrow> CmdResult" where
  "cd_result out err code =
     \<lparr> stdout = out, stderr = err, exitCode = Some code, duration = 0,
       background = False, pid = None \<rparr>"

definition handleCd :: "world \<Rightarrow> ShellSession \<Rightarrow> string \<Rightarrow> CmdResult \<times> ShellSession" where
  "handleCd w s command =
     (case match_cd command of
        None \<Rightarrow> (cd_result '''' ''Invalid cd command'' 1, s)
      | Some g \<Rightarrow>
          (let targetDir = cd_target w g;
               newCwd = cd_newCwd w s targetDir
           in case fs_stat w newCwd of
                None \<Rightarrow> (cd_result '''' (''cd: no such file or directory: '' @ targetDir) 1, s)
              | Some kind \<Rightarrow>
                  if kind \<noteq> Directory
                  then (cd_result '''' (''cd: not a directory: '' @ targetDir) 1, s)
                  else (cd_result newCwd '''' 0, s\<lparr> cwd := newCwd \<rparr>)))"

text \<open>
  The options of \<open>execute\<close>; an absent option is \<open>None\<close>. \<open>options.cwd\<close> is accepted
  and never read.
\<close>

record ExecOptions =
  opt_timeout :: "nat option"
  opt_background :: "bool option"
  opt_cwd :: "string option"
  opt_sessionId :: "string option"

definition default_options :: ExecOptions where
  "default_options = \<lparr> opt_timeout = None, opt_background = None, opt_cwd = None,
     opt_sessionId = None \<rparr>"

text \<open>
  The readings of the clock that one call of \<open>execute\<close> takes: \<open>Date.now()\<close> for the
  start time, \<open>new Date()\<close> for the time stamp of the history entry, and \<open>Date.now()\<close>
  for the id of a background process.
\<close>

record clock =
  t_start :: nat
  t_stamp :: nat
  t_bg :: nat

text \<open>
  What \<open>execute\<close> leaves behind when it has spawned a child: the promise it returned is
  pending, and the callback given to \<open>exec\<close> holds the history entry under
  construction, the start time, the background flag and the child.
\<close>

record PendingExec =
  p_command :: string
  p_timestamp :: nat
  p_cwd :: string
  p_startTime :: nat
  p_timeout :: nat
  p_runInBackground :: bool
  p_child :: nat

text \<open>
  The promise returned by \<open>execute\<close> when the synchronous part of the call has run:
  already resolved with a result (no child was spawned), or pending on a spawned child.
\<close>

datatype exec_promise = Resolved CmdResult | Pending PendingExec

text \<open>
  \<open>execute\<close> up to the point where it returns its promise. A command that starts with
  \<open>cd \<close> after trimming goes to \<open>_handleCd\<close>. Any other command is given to \<open>exec\<close>,
  which spawns the child \<open>child\<close>; for a background command the record of the process
  is stored under the id \<open>bg_<time>\<close>. The only call of \<open>resolve\<close> is inside the
  callback of \<open>exec\<close>, so the promise is pending. The event \<open>background-started\<close>
  that the session emits has no listener in the program and is left out.
\<close>

definition execute :: "world \<Rightarrow> clock \<Rightarrow> nat \<Rightarrow> ShellSession \<Rightarrow> string \<Rightarrow> ExecOptions
    \<Rightarrow> exec_promise \<times> ShellSession" where
  "execute w clk child s command options =
     (let startTime = t_start clk;
          timeout = (case opt_timeout options of None \<Rightarrow> 120000 | Some t \<Rightarrow> if t = 0 then 120000 else t);
          runInBackground = (case opt_background options of None \<Rightarrow> False | Some b \<Rightarrow> b)
      in if startsWith (trim command) ''cd '' then
           (case handleCd w s command of (r, s') \<Rightarrow> (Resolved r, s'))
         else
           (let pend = \<lparr> p_command = command, p_timestamp = t_stamp clk, p_cwd = cwd s,
                          p_startTime = startTime, p_timeout = timeout,
                          p_runInBackground = runInBackground, p_child = child \<rparr>
            in if runInBackground then
                 (let processId = ''bg_'' @ string_of_nat (t_bg clk);
                      proc = \<lparr> bg_process = child, bg_command = command, bg_startTime = startTime,
                               bg_stdout = [], bg_stderr = [], bg_completed = False,
                               bg_exitCode = None \<rparr>
                  in (Pending pend,
                      s\<lparr> backgroundProcesses := map_set processId proc (backgroundProcesses s) \<rparr>))
               else (Pending pend, s)))"

text \<open>The error that \<open>exec\<close> passes to its callback: its \<open>code\<close> and \<open>message\<close>.\<close>

record ExecError =
  err_code :: "int option"
  err_message :: string

text \<open>
  The callback of \<open>exec\<close>, called when the child has terminated (or was killed at the
  timeout, or overflowed the buffer): it completes the history entry, pushes it and
  resolves the promise.
\<close>

definition exec_callback :: "ShellSession \<Rightarrow> PendingExec \<Rightarrow> ExecError option \<Rightarrow> string \<Rightarrow> string \<Rightarrow> nat
    \<Rightarrow> CmdResult \<times> ShellSession" where
  "exec_callback s pend err out errout now =
     (let d = int now - int (p_startTime pend);
          entry = \<lparr> h_command = p_command pend, h_timestamp = p_timestamp pend,
                    h_cwd = p_cwd pend, h_stdout = out, h_stderr = errout,
                    h_exitCode = (case err of None \<Rightarrow> Some 0 | Some e \<Rightarrow> err_code e),
                    h_duration = d \<rparr>;
          s' = s\<lparr> history := history s @ [entry] \<rparr>
      in if p_runInBackground pend then
           (\<lparr> stdout = '''', stderr = '''', exitCode = None, duration = 0, background = True,
               pid = Some (p_child pend) \<rparr>, s')
         else (case err of
                 Some e \<Rightarrow>
                   if err_code e \<noteq> Some 0 then
                     (\<lparr> stdout = out,
                         stderr = (if errout = [] then err_message e else errout),
                         exitCode = (case err_code e of None \<Rightarrow> Some 1 | Some c \<Rightarrow> Some c),
                         duration = d, background = False, pid = None \<rparr>, s')
                   else
                     (\<lparr> stdout = out, stderr = errout, exitCode = Some 0, duration = d,
                         background = False, pid = None \<rparr>, s')
               | None \<Rightarrow>
                   (\<lparr> stdout = out, stderr = errout, exitCode = Some 0, duration = d,
                       background = False, pid = None \<rparr>, s')))"

text \<open>The listeners installed on the child of a background command.\<close>

definition on_stdout_data :: "string \<Rightarrow> string \<Rightarrow> ShellSession \<Rightarrow> ShellSession" where
  "on_stdout_data processId chunk s =
     (case map_of (backgroundProcesses s) processId of
        None \<Rightarrow> s
      | Some bgProcess \<Rightarrow>
          s\<lparr> backgroundProcesses :=
               map_set processId (bgProcess\<lparr> bg_stdout := bg_stdout bgProcess @ [chunk] \<rparr>)
                 (backgroundProcesses s) \<rparr>)"

definition on_stderr_data :: "string \<Rightarrow> string \<Rightarrow> ShellSession \<Rightarrow> ShellSession" where
  "on_stderr_data processId chunk s =
     (case map_of (backgroundProcesses s) processId of
        None \<Rightarrow> s
      | Some bgProcess \<Rightarrow>
          s\<lparr> backgroundProcesses :=
               map_set processId (bgProcess\<lparr> bg_stderr := bg_stderr bgProcess @ [chunk] \<rparr>)
                 (backgroundProcesses s) \<rparr>)"

definition on_exit :: "string \<Rightarrow> int option \<Rightarrow> ShellSession \<Rightarrow> ShellSession" where
  "on_exit processId code s =
     (case map_of (backgroundProcesses s) processId of
        None \<Rightarrow> s
      | Some bgProcess \<Rightarrow>
          s\<lparr> backgroundProcesses :=
               map_set processId (bgProcess\<lparr> bg_exitCode := code, bg_completed := True \<rparr>)
                 (backgroundProcesses s) \<rparr>)"

definition killBackgroundProcess :: "ShellSession \<Rightarrow> string \<Rightarrow> bool \<times> ShellSession" where
  "killBackgroundProcess s processId =
     (case map_of (backgroundProcesses s) processId of
        None \<Rightarrow> (False, s)
      | Some bgProcess \<Rightarrow>
          (True, s\<lparr> backgroundProcesses := map_delete processId (backgroundProcesses s) \<rparr>))"

definition clearHistory :: "ShellSession \<Rightarrow> ShellSession" where
  "clearHistory s = s\<lparr> history := [] \<rparr>"

subsection \<open>The session manager\<close>

record ShellManager =
  sessions :: "(string \<times> ShellSession) list"
  defaultSessionId :: string

definition createSession :: "world \<Rightarrow> nat \<Rightarrow> ShellManager \<Rightarrow> string \<Rightarrow> ShellSession \<times> ShellManager" where
  "createSession w now m i =
     (let session = ShellSession_new w i now
      in (session, m\<lparr> sessions := map_set i session (sessions m) \<rparr>))"

definition ShellManager_new :: "world \<Rightarrow> nat \<Rightarrow> ShellManager" where
  "ShellManager_new w now =
     snd (createSession w now \<lparr> sessions = [], defaultSessionId = ''default'' \<rparr> ''default'')"

text \<open>
  \<open>getSession\<close>: the id is \<open>id || this.defaultSessionId\<close>; an unknown id creates the
  session, a known id returns the stored one.
\<close>

definition getSession :: "world \<Rightarrow> nat \<Rightarrow> ShellManager \<Rightarrow> string option \<Rightarrow> ShellSession \<times> ShellManager" where
  "getSession w now m i =
     (let sessionId = js_or i (defaultSessionId m)
      in case map_of (sessions m) sessionId of
           None \<Rightarrow> createSession w now m sessionId
         | Some session \<Rightarrow> (session, m))"

text \<open>
  \<open>deleteSession\<close> throws on the default id before it touches anything. Otherwise a
  known session has every background process killed and is removed from the map; the
  kills change the removed session and its children only. The result is the thrown
  error or the returned boolean, with the manager as the call leaves it.
\<close>

definition deleteSession :: "ShellManager \<Rightarrow> string \<Rightarrow> (js_error + bool) \<times> ShellManager" where
  "deleteSession m i =
     (if i = defaultSessionId m then (Inl (Error ''Cannot delete default session''), m)
      else (case map_of (sessions m) i of
              Some session \<Rightarrow> (Inr True, m\<lparr> sessions := map_delete i (sessions m) \<rparr>)
            | None \<Rightarrow> (Inr False, m)))"

subsection \<open>Reachable states of a manager\<close>

text \<open>
  The methods of a session change that session only. One step of a session is the
  synchronous part of \<open>execute\<close>, the callback of \<open>exec\<close>, a listener of a background
  child, \<open>killBackgroundProcess\<close> or \<open>clearHistory\<close>.
\<close>

inductive session_step :: "world \<Rightarrow> ShellSession \<Rightarrow> ShellSession \<Rightarrow> bool" for w :: world where
  step_execute: "execute w clk child s command options = (p, s') \<Longrightarrow> session_step w s s'"
| step_callback: "exec_callback s pend err out errout now = (r, s') \<Longrightarrow> session_step w s s'"
| step_stdout: "session_step w s (on_stdout_data processId chunk s)"
| step_stderr: "session_step w s (on_stderr_data processId chunk s)"
| step_exit: "session_step w s (on_exit processId code s)"
| step_kill: "killBackgroundProcess s processId = (b, s') \<Longrightarrow> session_step w s s'"
| step_clear: "session_step w s (clearHistory s)"

text \<open>
  A manager is reachable when it is the result of the constructor followed by calls of
  \<open>getSession\<close> (which \<open>execute\<close>, \<open>executeStreaming\<close> and \<open>getCwd\<close> of the manager
  call first), calls of \<open>deleteSession\<close> (returning or throwing) and steps of the
  sessions it holds.
\<close>

inductive reachable :: "world \<Rightarrow> ShellManager \<Rightarrow> bool" for w :: world where
  reach_new: "reachable w (ShellManager_new w now)"
| reach_get: "reachable w m \<Longrightarrow> reachable w (snd (getSession w now m i))"
| reach_delete: "reachable w m \<Longrightarrow> reachable w (snd (deleteSession m i))"
| reach_session: "reachable w m \<Longrightarrow> map_of (sessions m) i = Some s \<Longrightarrow> session_step w s s'
     \<Longrightarrow> reachable w (m\<lparr> sessions := map_set i s' (sessions m) \<rparr>)"

section \<open>Reference functions for the statements\<close>

text \<open>
  Not part of the program: the outcome of every call of a batch when the capability is
  invoked on the calls one after the other in input order, and the entries these
  outcomes give. The theorems compare what the executors return with them.
\<close>

fun invoke_all :: "('s, 'r) executor \<Rightarrow> 's \<Rightarrow> ToolCall list \<Rightarrow> 'r outcome list \<times> 's" where
  "invoke_all ex s [] = ([], s)"
| "invoke_all ex s (c # cs) =
     (case ex s (name c) (args c) of
        (oc, s1) \<Rightarrow> (case invoke_all ex s1 cs of (ocs, s2) \<Rightarrow> (oc # ocs, s2)))"

definition expected_records :: "('s, 'r) executor \<Rightarrow> 's \<Rightarrow> ToolCall list \<Rightarrow> 'r exec_record list" where
  "expected_records ex s cs = map (\<lambda>(c, oc). record_of oc (name c)) (zip cs (fst (invoke_all ex s cs)))"

text \<open>
  The capability's state after the first \<open>k\<close> calls have been invoked, and the
  invariant of the scheduler of \<open>executeParallel\<close> that the proof carries: the first
  \<open>k\<close> calls have been taken from the queue, each of them is in flight with the
  outcome of its own invocation or has its own entry at its own index.
\<close>

definition state_after :: "('s, 'r) executor \<Rightarrow> 's \<Rightarrow> ToolCall list \<Rightarrow> nat \<Rightarrow> 's" where
  "state_after ex s cs k = snd (invoke_all ex s (take k cs))"

definition par_inv :: "('s, 'r) executor \<Rightarrow> 's \<Rightarrow> ToolCall list \<Rightarrow> ('s, 'r) par_state \<Rightarrow> nat \<Rightarrow> bool" where
  "par_inv ex s cs st k =
     (k \<le> length cs
      \<and> queue st = drop k (zip cs [0..<length cs])
      \<and> cap_state st = state_after ex s cs k
      \<and> length (par_results st) = length cs
      \<and> (\<forall>(i, t, oc) \<in> set (executing st). i < k \<and> record_of oc t = expected_records ex s cs ! i)
      \<and> (\<forall>i < k. i \<in> fst ` set (executing st) \<or> par_results st ! i = Some (expected_records ex s cs ! i)))"

text \<open>The invariant of the session manager that the proof carries.\<close>

definition default_present :: "ShellManager \<Rightarrow> bool" where
  "default_present m = (defaultSessionId m = ''default'' \<and> map_of (sessions m) ''default'' \<noteq> None)"

section \<open>Concrete inputs\<close>

text \<open>A manager that holds one task under the explicit id \<open>a\<close>, and the options that name this id again.\<close>

definition one_task :: TaskManager where
  "one_task = snd (addTask TaskManager_new ''first'' (no_options\<lparr> opt_id := Some ''a'' \<rparr>))"

definition again :: TaskOptions where
  "again = no_options\<lparr> opt_id := Some ''a'' \<rparr>"

text \<open>
  Two capabilities with a counter as state: \<open>steady\<close> fulfils every call, \<open>flaky\<close>
  rejects the tool named \<open>bad\<close>. \<open>call\<close> is a tool call without arguments and without
  dependencies, \<open>call_after\<close> one with dependencies.
\<close>

definition steady :: "(nat, string) executor" where
  "steady = (\<lambda>s n a. (Fulfilled (n @ ''!''), s + 1))"

definition flaky :: "(nat, string) executor" where
  "flaky = (\<lambda>s n a. (if n = ''bad'' then Rejected ''boom'' else Fulfilled (n @ ''!''), s + 1))"

definition call :: "string \<Rightarrow> ToolCall" where
  "call n = \<lparr> name = n, args = [], call_dependencies = None \<rparr>"

definition call_after :: "string \<Rightarrow> nat list \<Rightarrow> ToolCall" where
  "call_after n ds = \<lparr> name = n, args = [], call_dependencies = Some ds \<rparr>"

text \<open>
  A world with the directories \<open>/tmp\<close>, \<open>/home/u\<close> and \<open>/work/sub dir\<close> and the
  file \<open>/etc/passwd\<close>; paths are absolute when they start with a slash, and a
  relative path is appended to the directory it is resolved against.
\<close>

definition example_world :: world where
  "example_world =
     \<lparr> process_cwd = ''/work'',
       process_env = [(''HOME'', ''/home/u'')],
       fs_stat = (\<lambda>p. if p = ''/tmp'' \<or> p = ''/home/u'' \<or> p = ''/work/sub dir'' then Some Directory
                        else if p = ''/etc/passwd'' then Some NotDirectory else None),
       path_isAbsolute = (\<lambda>p. p \<noteq> [] \<and> hd p = CHR ''/''),
       path_resolve = (\<lambda>c p. c @ ''/'' @ p) \<rparr>"

definition example_session :: ShellSession where
  "example_session = ShellSession_new example_world ''default'' 0"

definition example_clock :: clock where
  "example_clock = \<lparr> t_start = 1000, t_stamp = 1000, t_bg = 1001 \<rparr>"

definition in_background :: ExecOptions where
  "in_background = default_options\<lparr> opt_background := Some True \<rparr>"

text \<open>
  A manager after some calls: a session \<open>build\<close> is created, the default session
  changes its directory, and the session \<open>build\<close> is deleted.
\<close>

definition busy_manager :: ShellManager where
  "busy_manager =
     (let m0 = ShellManager_new example_world 0;
          m1 = snd (getSession example_world 1 m0 (Some ''build''));
          m2 = m1\<lparr> sessions := map_set ''default''
                  (snd (execute example_world example_clock 7 example_session ''cd /tmp'' default_options))
                  (sessions m1) \<rparr>
      in snd (deleteSession m2 ''build''))"

section \<open>Task manager: theorems\<close>

text \<open>Evaluation of the task manager on concrete inputs.\<close>

lemma string_of_nat_small:
  "string_of_nat 1 = ''1''" "string_of_nat 2 = ''2''"
  "string_of_nat (Suc 0) = ''1''" "string_of_nat (Suc (Suc 0)) = ''2''"
  by (simp_all add: string_of_nat.simps digit_char_def)

lemmas task_eval = one_task_def again_def addTask_def TaskManager_new_def no_options_def Let_def
  getNextExecutableTask_def canExecute_def Task_new_def js_or_def getTask_def string_of_nat_small PENDING_def COMPLETED_def IN_PROGRESS_def FAILED_def BLOCKED_def startTask_def
  completeTask_def failTask_def updateTaskStatus_def no_data_def start_def complete_def fail_def block_def
  getProgress_def count_status_def getAllTasks_def round_percent_def

text \<open>
  C2, as stated, fails: \<open>addTask\<close> has no check of the id. In a manager that holds a
  task under the id \<open>a\<close>, adding a second task with the explicit id \<open>a\<close> returns
  normally, the second task replaces the first in the map, and the id stands twice in
  the task order.
\<close>

theorem addTask_duplicate_id_counterexample:
  "tasks one_task ''a'' = Some (Task_new ''a'' ''first'' again)
   \<and> taskOrder one_task = [''a'']
   \<and> fst (addTask one_task ''second'' again) = Task_new ''a'' ''second'' again
   \<and> tasks (snd (addTask one_task ''second'' again)) ''a'' = Some (Task_new ''a'' ''second'' again)
   \<and> taskOrder (snd (addTask one_task ''second'' again)) = [''a'', ''a'']
   \<and> snd (addTask one_task ''second'' again) \<noteq> one_task"
proof -
  have "taskOrder (snd (addTask one_task ''second'' again)) \<noteq> taskOrder one_task"
    by (simp add: task_eval)
  then have "snd (addTask one_task ''second'' again) \<noteq> one_task" by auto
  then show ?thesis by (simp add: task_eval)
qed

text \<open>
  C2, amended: for every manager and every call of \<open>addTask\<close> whose explicit,
  non-empty id already names a task, the call does not fail. It returns the new task
  with that id, stores it under the id in place of the task that was there, appends the
  id to the task order once more, and leaves the id counter and every other task as they
  were.
\<close>

theorem addTask_existing_id_replaces:
  assumes "tasks tm i = Some old" and "i \<noteq> []" and "opt_id options = Some i"
  shows "fst (addTask tm d options) = Task_new i d options
    \<and> tasks (snd (addTask tm d options)) = (tasks tm)(i \<mapsto> Task_new i d options)
    \<and> taskOrder (snd (addTask tm d options)) = taskOrder tm @ [i]
    \<and> nextId (snd (addTask tm d options)) = nextId tm
    \<and> task_id (Task_new i d options) = i
    \<and> description (Task_new i d options) = d"
  using assms by (simp add: addTask_def Let_def Task_new_def)

theorem addTask_existing_id_replaces_witness:
  "tasks one_task ''a'' = Some (Task_new ''a'' ''first'' again)
   \<and> opt_id again = Some ''a''
   \<and> fst (addTask one_task ''second'' again) = Task_new ''a'' ''second'' again
   \<and> tasks (snd (addTask one_task ''second'' again)) = (tasks one_task)(''a'' \<mapsto> Task_new ''a'' ''second'' again)
   \<and> taskOrder (snd (addTask one_task ''second'' again)) = [''a''] @ [''a'']
   \<and> nextId (snd (addTask one_task ''second'' again)) = 1"
proof -
  have h1: "tasks one_task ''a'' = Some (Task_new ''a'' ''first'' again)" by (simp add: task_eval)
  have h2: "''a'' \<noteq> []" by simp
  have h3: "opt_id again = Some ''a''" by (simp add: again_def)
  have o: "taskOrder one_task = [''a'']" and n: "nextId one_task = 1" by (simp_all add: task_eval)
  from addTask_existing_id_replaces [OF h1 h2 h3, of "''second''"] h1 h3 o n
  show ?thesis by simp
qed

text \<open>
  C8, as stated, fails while A is in progress: \<open>canExecute\<close> is false for a task that
  is not pending, so with A started and B waiting for A no task is executable.
\<close>

theorem next_executable_in_progress_counterexample:
  "(let a = addTask TaskManager_new ''A'' no_options;
        b = addTask (snd a) ''B'' (no_options\<lparr> opt_dependencies := Some [task_id (fst a)] \<rparr>);
        started = snd (startTask (snd b) (task_id (fst a)) 10)
    in map_option status (tasks started (task_id (fst a))) = Some IN_PROGRESS
       \<and> getNextExecutableTask started = Inr None)"
  by (simp add: task_eval)

text \<open>
  C8, amended: in a new manager with task A (no dependencies) and task B (depending on
  A's id), \<open>getNextExecutableTask\<close> returns A while A is pending and returns nothing
  while A is in progress; after A has been started and completed it returns B, and
  \<open>getProgress\<close> reports \<open>completed = 1\<close>, \<open>total = 2\<close>, \<open>percentage = 50\<close>.
\<close>

theorem next_executable_scenario:
  "(let a = addTask TaskManager_new dA no_options;
        b = addTask (snd a) dB (no_options\<lparr> opt_dependencies := Some [task_id (fst a)] \<rparr>);
        started = snd (startTask (snd b) (task_id (fst a)) t1);
        done = snd (completeTask started (task_id (fst a)) r t2)
    in getNextExecutableTask (snd b) = Inr (Some (fst a))
       \<and> getNextExecutableTask started = Inr None
       \<and> getNextExecutableTask done = Inr (Some (fst b))
       \<and> getProgress done
           = Inr \<lparr> total = 2, completed = 1, inProgress = 0, failed = 0, blocked = 0,
                    pending = 1, percentage = 50 \<rparr>)"
  by (simp add: task_eval)

theorem next_executable_scenario_witness:
  "(let a = addTask TaskManager_new ''A'' no_options;
        b = addTask (snd a) ''B'' (no_options\<lparr> opt_dependencies := Some [task_id (fst a)] \<rparr>);
        started = snd (startTask (snd b) (task_id (fst a)) 10);
        done = snd (completeTask started (task_id (fst a)) None 20)
    in getNextExecutableTask (snd b) = Inr (Some (fst a))
       \<and> getNextExecutableTask started = Inr None
       \<and> getNextExecutableTask done = Inr (Some (fst b))
       \<and> getProgress done
           = Inr \<lparr> total = 2, completed = 1, inProgress = 0, failed = 0, blocked = 0,
                    pending = 1, percentage = 50 \<rparr>)"
  by (rule next_executable_scenario)

text \<open>
  C10: the transitions check nothing but the existence of the task. For an id that
  names a task, whatever its status, \<open>startTask\<close>, \<open>completeTask\<close> and \<open>failTask\<close>
  return true and leave the task in progress, completed and failed, and
  \<open>updateTaskStatus\<close> returns true for every status and leaves the task in it.
\<close>

theorem status_transitions_unguarded:
  assumes "tasks tm i = Some t"
  shows "fst (startTask tm i now)
    \<and> map_option status (tasks (snd (startTask tm i now)) i) = Some IN_PROGRESS
    \<and> fst (completeTask tm i r now)
    \<and> map_option status (tasks (snd (completeTask tm i r now)) i) = Some COMPLETED
    \<and> fst (failTask tm i e now)
    \<and> map_option status (tasks (snd (failTask tm i e now)) i) = Some FAILED
    \<and> fst (updateTaskStatus tm i st data now)
    \<and> map_option status (tasks (snd (updateTaskStatus tm i st data now)) i) = Some st"
  using assms
  by (simp add: startTask_def completeTask_def failTask_def updateTaskStatus_def Let_def
        start_def complete_def fail_def block_def)

theorem status_transitions_unguarded_witness:
  "tasks one_task ''a'' = Some (Task_new ''a'' ''first'' again)
   \<and> status (Task_new ''a'' ''first'' again) = PENDING
   \<and> fst (completeTask one_task ''a'' None 5)
   \<and> tasks (snd (completeTask one_task ''a'' None 5)) ''a'' = Some (complete None 5 (Task_new ''a'' ''first'' again))
   \<and> map_option status (tasks (snd (completeTask one_task ''a'' None 5)) ''a'') = Some COMPLETED
   \<and> fst (startTask (snd (completeTask one_task ''a'' None 5)) ''a'' 9)
   \<and> map_option status (tasks (snd (startTask (snd (completeTask one_task ''a'' None 5)) ''a'' 9)) ''a'')
       = Some IN_PROGRESS"
proof -
  have h1: "tasks one_task ''a'' = Some (Task_new ''a'' ''first'' again)"
    by (simp add: task_eval)
  have h2: "tasks (snd (completeTask one_task ''a'' None 5)) ''a''
      = Some (complete None 5 (Task_new ''a'' ''first'' again))"
    using h1 by (simp add: completeTask_def updateTaskStatus_def Let_def IN_PROGRESS_def COMPLETED_def)
  have p: "status (Task_new ''a'' ''first'' again) = PENDING"
    by (simp add: Task_new_def again_def no_options_def js_or_def)
  from status_transitions_unguarded [OF h1, of 5 None]
       status_transitions_unguarded [OF h2, of 9] h1 h2 p
  show ?thesis by simp
qed


section \<open>Sequential execution: theorems\<close>

lemma seq_loop_acc:
  "seq_loop ex s acc cs = (acc @ fst (seq_loop ex s [] cs), snd (seq_loop ex s [] cs))"
proof (induction cs arbitrary: s acc)
  case Nil
  show ?case by simp
next
  case (Cons c cs)
  obtain oc s1 where e: "ex s (name c) (args c) = (oc, s1)"
    by (cases "ex s (name c) (args c)")
  show ?case
  proof (cases oc)
    case (Fulfilled r)
    have "seq_loop ex s acc (c # cs) = seq_loop ex s1 (acc @ [SuccessRec r (name c)]) cs"
      using e Fulfilled by simp
    also have "\<dots> = ((acc @ [SuccessRec r (name c)]) @ fst (seq_loop ex s1 [] cs), snd (seq_loop ex s1 [] cs))"
      by (rule Cons.IH)
    finally have l: "seq_loop ex s acc (c # cs)
        = (acc @ SuccessRec r (name c) # fst (seq_loop ex s1 [] cs), snd (seq_loop ex s1 [] cs))"
      by simp
    have "seq_loop ex s [] (c # cs) = seq_loop ex s1 [SuccessRec r (name c)] cs"
      using e Fulfilled by simp
    also have "\<dots> = ([SuccessRec r (name c)] @ fst (seq_loop ex s1 [] cs), snd (seq_loop ex s1 [] cs))"
      by (rule Cons.IH)
    finally show ?thesis using l by simp
  next
    case (Rejected m)
    with e show ?thesis by simp
  qed
qed

lemma executeSequential_Nil: "executeSequential ex s [] = ([], s)"
  by (simp add: executeSequential_def)

lemma executeSequential_Cons:
  "executeSequential ex s (c # cs) =
     (case ex s (name c) (args c) of
        (Fulfilled r, s1) \<Rightarrow>
          (SuccessRec r (name c) # fst (executeSequential ex s1 cs), snd (executeSequential ex s1 cs))
      | (Rejected m, s1) \<Rightarrow> ([FailureRec m (name c)], s1))"
proof -
  obtain oc s1 where e: "ex s (name c) (args c) = (oc, s1)"
    by (cases "ex s (name c) (args c)")
  show ?thesis
  proof (cases oc)
    case (Fulfilled r)
    with e show ?thesis
      using seq_loop_acc [of ex s1 "[SuccessRec r (name c)]" cs]
      by (simp add: executeSequential_def)
  next
    case (Rejected m)
    with e show ?thesis by (simp add: executeSequential_def)
  qed
qed

lemma seq_logged:
  "executeSequential (logged ex) (s, lg0) cs = (rs, (s', lg)) \<Longrightarrow>
     length rs \<le> length cs
   \<and> lg = lg0 @ map (\<lambda>c. (name c, args c)) (take (length rs) cs)
   \<and> rs = take (length rs) (expected_records ex s cs)
   \<and> (\<forall>i < length rs. is_failure (rs ! i) \<longrightarrow> Suc i = length rs)
   \<and> (length rs < length cs \<longrightarrow> rs \<noteq> [] \<and> is_failure (last rs))
   \<and> executeSequential ex s cs = (rs, s')"
proof (induction cs arbitrary: s lg0 rs s' lg)
  case Nil
  then show ?case by (simp add: executeSequential_Nil expected_records_def)
next
  case (Cons c cs)
  obtain oc s1 where e: "ex s (name c) (args c) = (oc, s1)"
    by (cases "ex s (name c) (args c)")
  have le: "logged ex (s, lg0) (name c) (args c) = (oc, (s1, lg0 @ [(name c, args c)]))"
    using e by (simp add: logged_def)
  obtain ocs s2 where ia: "invoke_all ex s1 cs = (ocs, s2)" by (cases "invoke_all ex s1 cs")
  have exp: "expected_records ex s (c # cs) = record_of oc (name c) # expected_records ex s1 cs"
    using e ia by (simp add: expected_records_def)
  show ?case
  proof (cases oc)
    case (Rejected m)
    with Cons.prems le have "rs = [FailureRec m (name c)]" "s' = s1" "lg = lg0 @ [(name c, args c)]"
      by (simp_all add: executeSequential_Cons)
    with e Rejected exp show ?thesis
      by (simp add: executeSequential_Cons record_of_def)
  next
    case (Fulfilled r)
    obtain rs1 s1' lg1 where t: "executeSequential (logged ex) (s1, lg0 @ [(name c, args c)]) cs = (rs1, (s1', lg1))"
      by (cases "executeSequential (logged ex) (s1, lg0 @ [(name c, args c)]) cs") auto
    from Cons.prems le Fulfilled t have rs: "rs = SuccessRec r (name c) # rs1" and s': "s' = s1'" and lg: "lg = lg1"
      by (simp_all add: executeSequential_Cons)
    note ih = Cons.IH [OF t]
    have 1: "length rs \<le> length (c # cs)" using ih rs by simp
    have 2: "lg = lg0 @ map (\<lambda>c. (name c, args c)) (take (length rs) (c # cs))"
      using ih rs lg by simp
    have 3: "rs = take (length rs) (expected_records ex s (c # cs))"
    proof -
      from ih have "rs1 = take (length rs1) (expected_records ex s1 cs)" by blast
      then have "SuccessRec r (name c) # rs1
          = take (Suc (length rs1)) (record_of oc (name c) # expected_records ex s1 cs)"
        using Fulfilled by (simp add: record_of_def)
      then show ?thesis using rs exp by simp
    qed
    have 4: "\<forall>i < length rs. is_failure (rs ! i) \<longrightarrow> Suc i = length rs"
    proof (intro allI impI)
      fix i assume i: "i < length rs" and f: "is_failure (rs ! i)"
      show "Suc i = length rs"
      proof (cases i)
        case 0
        with f rs show ?thesis by simp
      next
        case (Suc j)
        with i f rs have "j < length rs1" "is_failure (rs1 ! j)" by simp_all
        with ih have "Suc j = length rs1" by blast
        with Suc rs show ?thesis by simp
      qed
    qed
    have 5: "length rs < length (c # cs) \<longrightarrow> rs \<noteq> [] \<and> is_failure (last rs)"
    proof
      assume "length rs < length (c # cs)"
      with rs have "length rs1 < length cs" by simp
      with ih have "rs1 \<noteq> [] \<and> is_failure (last rs1)" by blast
      with rs show "rs \<noteq> [] \<and> is_failure (last rs)" by simp
    qed
    have 6: "executeSequential ex s (c # cs) = (rs, s')"
      using ih e Fulfilled rs s' by (simp add: executeSequential_Cons)
    from 1 2 3 4 5 6 show ?thesis by blast
  qed
qed

text \<open>
  C3: \<open>executeSequential\<close> invokes the calls in input order and stops at the first
  rejected call. Run on a capability that logs its invocations: the log is exactly the
  calls that have an entry, in input order; the entries are those of these calls in
  order; an entry that is a failure is the last one; and when fewer entries than calls
  are returned the last entry is a failure. The log changes nothing in the result.
\<close>

theorem executeSequential_fail_fast:
  assumes "executeSequential (logged ex) (s, []) toolCalls = (results, (s', lg))"
  shows "length results \<le> length toolCalls
    \<and> lg = map (\<lambda>c. (name c, args c)) (take (length results) toolCalls)
    \<and> results = take (length results) (expected_records ex s toolCalls)
    \<and> (\<forall>i < length results. is_failure (results ! i) \<longrightarrow> Suc i = length results)
    \<and> (length results < length toolCalls \<longrightarrow> results \<noteq> [] \<and> is_failure (last results))
    \<and> executeSequential ex s toolCalls = (results, s')"
  using seq_logged [OF assms] by simp

theorem executeSequential_fail_fast_witness:
  "executeSequential (logged flaky) (0, []) [call ''a'', call ''bad'', call ''c'']
     = ([SuccessRec ''a!'' ''a'', FailureRec ''boom'' ''bad''], (2, [(''a'', []), (''bad'', [])]))
   \<and> [(''a'', []), (''bad'', [])] = map (\<lambda>c. (name c, args c)) (take 2 [call ''a'', call ''bad'', call ''c''])
   \<and> is_failure (last [SuccessRec ''a!'' ''a'', FailureRec ''boom'' ''bad''])
   \<and> executeSequential flaky 0 [call ''a'', call ''bad'', call ''c'']
     = ([SuccessRec ''a!'' ''a'', FailureRec ''boom'' ''bad''], 2)"
proof -
  have h: "executeSequential (logged flaky) (0, []) [call ''a'', call ''bad'', call ''c'']
     = ([SuccessRec ''a!'' ''a'', FailureRec ''boom'' ''bad''], (2, [(''a'', []), (''bad'', [])]))"
    by (simp add: executeSequential_def logged_def flaky_def call_def)
  note t = executeSequential_fail_fast [OF h]
  have lt: "length [SuccessRec ''a!'' ''a'', FailureRec ''boom'' ''bad'']
      < length [call ''a'', call ''bad'', call ''c'']" by simp
  from t lt have f: "is_failure (last [SuccessRec ''a!'' ''a'', FailureRec ''boom'' ''bad''])"
    by blast
  from t have l: "[(''a'', []), (''bad'', [])] = map (\<lambda>c. (name c, args c))
      (take (length [SuccessRec ''a!'' ''a'', FailureRec ''boom'' ''bad'']) [call ''a'', call ''bad'', call ''c''])"
    by blast
  from t have p: "executeSequential flaky 0 [call ''a'', call ''bad'', call ''c'']
     = ([SuccessRec ''a!'' ''a'', FailureRec ''boom'' ''bad''], 2)"
    by blast
  from l have l': "[(''a'', []), (''bad'', [])]
      = map (\<lambda>c. (name c, args c)) (take 2 [call ''a'', call ''bad'', call ''c''])"
    by simp
  from h l' f p show ?thesis by blast
qed

section \<open>Dependency-gated execution: theorems\<close>

lemma ready_avoids_stuck:
  assumes stuck: "\<forall>i\<in>S. i < length toolCalls \<and>
            (\<exists>ds. call_dependencies (toolCalls ! i) = Some ds \<and> (\<exists>d\<in>set ds. d \<in> S))"
    and ex: "set executed \<inter> S = {}"
  shows "set (ready toolCalls executed) \<inter> S = {}"
proof (rule ccontr)
  assume "set (ready toolCalls executed) \<inter> S \<noteq> {}"
  then obtain i where ir: "i \<in> set (ready toolCalls executed)" and iS: "i \<in> S" by blast
  from stuck iS obtain ds d where ds: "call_dependencies (toolCalls ! i) = Some ds"
    and d: "d \<in> set ds" "d \<in> S" by blast
  from ir have "canExecute_call executed (toolCalls ! i)" by (simp add: ready_def)
  with ds d(1) have "d \<in> set executed"
    by (cases ds) (auto simp: canExecute_call_def list_all_iff)
  with d(2) ex show False by blast
qed

lemma ready_in_range: "set (ready toolCalls executed) \<subseteq> {..<length toolCalls}"
  by (auto simp: ready_def)

lemma record_fulfilled_subset:
  "set (snd (record_fulfilled (results, executed) ocs)) \<subseteq> set executed \<union> fst ` set ocs"
proof (induction ocs arbitrary: results executed)
  case Nil
  show ?case by simp
next
  case (Cons p ocs)
  obtain i oc where p: "p = (i, oc)" by (cases p)
  show ?case
  proof (cases oc)
    case (Fulfilled r)
    have "set (snd (record_fulfilled (results(i \<mapsto> r), executed @ [i]) ocs))
        \<subseteq> set (executed @ [i]) \<union> fst ` set ocs"
      by (rule Cons.IH)
    with p Fulfilled show ?thesis by auto
  next
    case (Rejected m)
    have "set (snd (record_fulfilled (results, executed) ocs)) \<subseteq> set executed \<union> fst ` set ocs"
      by (rule Cons.IH)
    with p Rejected show ?thesis by auto
  qed
qed

lemma run_batch_index_set: "fst ` set (fst (run_batch ex s toolCalls js)) = set js"
proof -
  have "set (map fst (fst (run_batch ex s toolCalls js))) = set js"
    by (simp only: run_batch_indices)
  then show ?thesis by simp
qed

lemma never_rejected_batch:
  assumes "\<forall>s n a. \<exists>r. fst (ex s n a) = Fulfilled r"
  shows "first_rejection (fst (run_batch ex s toolCalls js)) = None"
proof (induction js arbitrary: s)
  case Nil
  show ?case by simp
next
  case (Cons j js)
  obtain oc s1 where e: "ex s (name (toolCalls ! j)) (args (toolCalls ! j)) = (oc, s1)"
    by (cases "ex s (name (toolCalls ! j)) (args (toolCalls ! j))")
  from assms obtain r where "fst (ex s (name (toolCalls ! j)) (args (toolCalls ! j))) = Fulfilled r"
    by blast
  with e have oc: "oc = Fulfilled r" by simp
  obtain ocs s2 where rb: "run_batch ex s1 toolCalls js = (ocs, s2)"
    by (cases "run_batch ex s1 toolCalls js")
  from Cons.IH [of s1] rb have "first_rejection ocs = None" by simp
  with e oc rb show ?case by simp
qed

lemma set_size_stuck:
  assumes "set executed \<subseteq> {..<n}" and "i < n" and "i \<notin> set executed"
  shows "set_size executed < n"
proof -
  have "set executed \<subseteq> {..<n} - {i}" using assms by blast
  then have "card (set executed) \<le> card ({..<n} - {i})" by (intro card_mono) simp_all
  also have "\<dots> < n" using assms(2) by simp
  finally show ?thesis by (simp add: set_size_def length_remdups_card_conv)
qed

lemma ewd_loop_deadlock_round:
  assumes "set_size executed < length toolCalls" and "ready toolCalls executed = []"
  shows "ewd_loop ex toolCalls s results executed started = (Inl CircularOrMissingDependency, s, started)"
  using assms by (simp add: ewd_loop.simps [of ex toolCalls s results executed started])

lemma ewd_loop_stuck:
  assumes stuck: "\<forall>i\<in>S. i < length toolCalls \<and>
            (\<exists>ds. call_dependencies (toolCalls ! i) = Some ds \<and> (\<exists>d\<in>set ds. d \<in> S))"
  shows "set executed \<subseteq> {..<length toolCalls} \<Longrightarrow> set executed \<inter> S = {} \<Longrightarrow> set started \<inter> S = {} \<Longrightarrow>
     set (snd (snd (ewd_loop ex toolCalls s results executed started))) \<inter> S = {}
     \<and> (S \<noteq> {} \<longrightarrow> (\<exists>e. fst (ewd_loop ex toolCalls s results executed started) = Inl e))
     \<and> (S \<noteq> {} \<longrightarrow> (\<forall>s n a. \<exists>r. fst (ex s n a) = Fulfilled r) \<longrightarrow>
           fst (ewd_loop ex toolCalls s results executed started) = Inl CircularOrMissingDependency)"
  using stuck
proof (induction ex toolCalls s results executed started rule: ewd_loop.induct)
  case (1 ex toolCalls s results executed started)
  note stuck = "1.prems"(4)
  note inr = "1.prems"(1) and exS = "1.prems"(2) and stS = "1.prems"(3)
  let ?batch = "ready toolCalls executed"
  have bS: "set ?batch \<inter> S = {}" using ready_avoids_stuck [OF stuck exS] .
  show ?case
  proof (cases "set_size executed < length toolCalls")
    case False
    have "S = {}"
    proof (rule ccontr)
      assume "S \<noteq> {}"
      then obtain i where iS: "i \<in> S" by blast
      with stuck have "i < length toolCalls" by blast
      moreover from iS exS have "i \<notin> set executed" by blast
      ultimately have "set_size executed < length toolCalls"
        using inr by (intro set_size_stuck)
      with False show False by simp
    qed
    with False stS show ?thesis
      by (simp add: ewd_loop.simps [of ex toolCalls s results executed started])
  next
    case True
    show ?thesis
    proof (cases "?batch = []")
      case bn: True
      with True stS show ?thesis
        by (simp add: ewd_loop.simps [of ex toolCalls s results executed started])
    next
      case bne: False
      obtain ocs s1 where rb: "run_batch ex s toolCalls ?batch = (ocs, s1)"
        by (cases "run_batch ex s toolCalls ?batch")
      obtain results1 executed1 where rf: "record_fulfilled (results, executed) ocs = (results1, executed1)"
        by (cases "record_fulfilled (results, executed) ocs")
      have st1: "set (started @ ?batch) \<inter> S = {}" using stS bS by auto
      show ?thesis
      proof (cases "first_rejection ocs")
        case (Some m)
        have nr: "\<not> (\<forall>s n a. \<exists>r. fst (ex s n a) = Fulfilled r)"
        proof
          assume "\<forall>s n a. \<exists>r. fst (ex s n a) = Fulfilled r"
          then have "first_rejection (fst (run_batch ex s toolCalls ?batch)) = None"
            by (rule never_rejected_batch)
          with rb Some show False by simp
        qed
        have "ewd_loop ex toolCalls s results executed started = (Inl (CallRejected m), s1, started @ ?batch)"
          using True bne rb rf Some
          by (simp add: ewd_loop.simps [of ex toolCalls s results executed started])
        with st1 nr show ?thesis by simp
      next
        case None
        have eq: "ewd_loop ex toolCalls s results executed started
            = ewd_loop ex toolCalls s1 results1 executed1 (started @ ?batch)"
          using True bne rb rf None
          by (simp add: ewd_loop.simps [of ex toolCalls s results executed started])
        have sub: "set executed1 \<subseteq> set executed \<union> set ?batch"
          using record_fulfilled_subset [of results executed ocs] rf
            run_batch_index_set [of ex s toolCalls ?batch] rb by simp
        have a: "set executed1 \<subseteq> {..<length toolCalls}"
          using sub inr ready_in_range [of toolCalls executed] by blast
        have b: "set executed1 \<inter> S = {}" using sub exS bS by blast
        have ne: "length ?batch \<noteq> 0" using bne by simp
        from "1.IH" [OF True refl ne rb [symmetric] rf [symmetric] None a b st1 stuck] eq
        show ?thesis by simp
      qed
    qed
  qed
qed

text \<open>
  C4: a round whose ready set is empty while calls remain makes the loop fail with the
  deadlock error, and nothing more is invoked. For a set \<open>S\<close> of calls each of which
  depends on a call of \<open>S\<close> (the calls of a cycle, for one): no call of \<open>S\<close> is ever
  invoked; when \<open>S\<close> is not empty the batch fails; and when moreover the capability
  rejects no call it fails with the deadlock error. The batch of two calls that depend
  on each other fails with the deadlock error and invokes neither.
\<close>

theorem executeWithDependencies_deadlock:
  "(set_size executed < length toolCalls \<and> ready toolCalls executed = [] \<longrightarrow>
      ewd_loop ex toolCalls s results executed started
        = (Inl CircularOrMissingDependency, s, started))
   \<and> ((\<forall>i\<in>S. i < length toolCalls \<and>
          (\<exists>ds. call_dependencies (toolCalls ! i) = Some ds \<and> (\<exists>d\<in>set ds. d \<in> S))) \<longrightarrow>
        set (snd (snd (executeWithDependencies ex s toolCalls))) \<inter> S = {}
        \<and> (S \<noteq> {} \<longrightarrow> (\<exists>e. fst (executeWithDependencies ex s toolCalls) = Inl e))
        \<and> (S \<noteq> {} \<longrightarrow> (\<forall>s n a. \<exists>r. fst (ex s n a) = Fulfilled r) \<longrightarrow>
              fst (executeWithDependencies ex s toolCalls) = Inl CircularOrMissingDependency))
   \<and> executeWithDependencies ex s
        [\<lparr> name = a, args = aa, call_dependencies = Some [1] \<rparr>,
         \<lparr> name = b, args = ba, call_dependencies = Some [0] \<rparr>]
        = (Inl CircularOrMissingDependency, s, [])"
proof (intro conjI impI)
  assume "set_size executed < length toolCalls \<and> ready toolCalls executed = []"
  then show "ewd_loop ex toolCalls s results executed started
        = (Inl CircularOrMissingDependency, s, started)"
    by (simp add: ewd_loop_deadlock_round)
next
  assume st: "\<forall>i\<in>S. i < length toolCalls \<and>
          (\<exists>ds. call_dependencies (toolCalls ! i) = Some ds \<and> (\<exists>d\<in>set ds. d \<in> S))"
  show "set (snd (snd (executeWithDependencies ex s toolCalls))) \<inter> S = {}"
    using ewd_loop_stuck [OF st, of "[]" "[]" ex s Map.empty] by (simp add: executeWithDependencies_def)
next
  assume st: "\<forall>i\<in>S. i < length toolCalls \<and>
          (\<exists>ds. call_dependencies (toolCalls ! i) = Some ds \<and> (\<exists>d\<in>set ds. d \<in> S))"
    and ne: "S \<noteq> {}"
  show "\<exists>e. fst (executeWithDependencies ex s toolCalls) = Inl e"
    using ewd_loop_stuck [OF st, of "[]" "[]" ex s Map.empty] ne by (simp add: executeWithDependencies_def)
next
  assume st: "\<forall>i\<in>S. i < length toolCalls \<and>
          (\<exists>ds. call_dependencies (toolCalls ! i) = Some ds \<and> (\<exists>d\<in>set ds. d \<in> S))"
    and ne: "S \<noteq> {}" and nr: "\<forall>s n a. \<exists>r. fst (ex s n a) = Fulfilled r"
  show "fst (executeWithDependencies ex s toolCalls) = Inl CircularOrMissingDependency"
    using ewd_loop_stuck [OF st, of "[]" "[]" ex s Map.empty] ne nr by (simp add: executeWithDependencies_def)
next
  show "executeWithDependencies ex s
        [\<lparr> name = a, args = aa, call_dependencies = Some [1] \<rparr>,
         \<lparr> name = b, args = ba, call_dependencies = Some [0] \<rparr>]
        = (Inl CircularOrMissingDependency, s, [])"
    by (simp add: executeWithDependencies_def ewd_loop.simps set_size_def ready_def canExecute_call_def)
qed


theorem executeWithDependencies_deadlock_witness:
  "executeWithDependencies steady 0 [call_after ''A'' [1], call_after ''B'' [0]]
     = (Inl CircularOrMissingDependency, 0, [])
   \<and> set (snd (snd (executeWithDependencies steady 0
            [call_after ''A'' [], call_after ''B'' [2], call_after ''C'' [1], call_after ''D'' [0]])))
       \<inter> {1, 2} = {}
   \<and> fst (executeWithDependencies steady 0
            [call_after ''A'' [], call_after ''B'' [2], call_after ''C'' [1], call_after ''D'' [0]])
       = Inl CircularOrMissingDependency
   \<and> set_size [0, 3] < length [call_after ''A'' [], call_after ''B'' [2], call_after ''C'' [1], call_after ''D'' [0]]
   \<and> ready [call_after ''A'' [], call_after ''B'' [2], call_after ''C'' [1], call_after ''D'' [0]] [0, 3] = []
   \<and> ewd_loop steady [call_after ''A'' [], call_after ''B'' [2], call_after ''C'' [1], call_after ''D'' [0]]
        2 [0 \<mapsto> ''A!'', 3 \<mapsto> ''D!''] [0, 3] [0, 3]
       = (Inl CircularOrMissingDependency, 2, [0, 3])"
proof -
  let ?cs = "[call_after ''A'' [], call_after ''B'' [2], call_after ''C'' [1], call_after ''D'' [0]]"
  have st: "\<forall>i\<in>{1, 2}. i < length ?cs \<and>
          (\<exists>ds. call_dependencies (?cs ! i) = Some ds \<and> (\<exists>d\<in>set ds. d \<in> {1, 2::nat}))"
    by (simp add: call_after_def)
  have nr: "\<forall>s n a. \<exists>r. fst (steady s n a) = Fulfilled r" by (simp add: steady_def)
  have ne: "{1, 2::nat} \<noteq> {}" by simp
  have rd: "set_size [0, 3] < length ?cs \<and> ready ?cs [0, 3] = []"
    by (simp add: set_size_def ready_def canExecute_call_def call_after_def)
  note t1 = executeWithDependencies_deadlock [where executed = "[0, 3]" and toolCalls = ?cs
      and ex = steady and s = 2 and results = "[0 \<mapsto> ''A!'', 3 \<mapsto> ''D!'']" and started = "[0, 3]"
      and S = "{1, 2}" and a = "''A''" and aa = "[]" and b = "''B''" and ba = "[]"]
  note t2 = executeWithDependencies_deadlock [where executed = "[]" and toolCalls = ?cs
      and ex = steady and s = 0 and results = Map.empty and started = "[]"
      and S = "{1, 2}" and a = "''A''" and aa = "[]" and b = "''B''" and ba = "[]"]
  from t1 rd have c1: "ewd_loop steady ?cs 2 [0 \<mapsto> ''A!'', 3 \<mapsto> ''D!''] [0, 3] [0, 3]
       = (Inl CircularOrMissingDependency, 2, [0, 3])"
    by blast
  from t2 st have c2: "set (snd (snd (executeWithDependencies steady 0 ?cs))) \<inter> {1, 2} = {}"
    by blast
  from t2 st ne nr have c3: "fst (executeWithDependencies steady 0 ?cs) = Inl CircularOrMissingDependency"
    by blast
  from t2 have "executeWithDependencies steady 0
        [\<lparr> name = ''A'', args = [], call_dependencies = Some [1] \<rparr>,
         \<lparr> name = ''B'', args = [], call_dependencies = Some [0] \<rparr>]
        = (Inl CircularOrMissingDependency, 0, [])"
    by blast
  then have c4: "executeWithDependencies steady 0 [call_after ''A'' [1], call_after ''B'' [0]]
     = (Inl CircularOrMissingDependency, 0, [])"
    by (simp add: call_after_def)
  from c1 c2 c3 c4 rd show ?thesis by blast
qed

section \<open>Parallel execution: theorems\<close>

lemma invoke_all_length: "length (fst (invoke_all ex s cs)) = length cs"
proof (induction cs arbitrary: s)
  case Nil
  show ?case by simp
next
  case (Cons c cs)
  obtain oc s1 where e: "ex s (name c) (args c) = (oc, s1)"
    by (cases "ex s (name c) (args c)")
  obtain ocs s2 where r: "invoke_all ex s1 cs = (ocs, s2)" by (cases "invoke_all ex s1 cs")
  from Cons.IH [of s1] r have "length ocs = length cs" by simp
  with e r show ?case by simp
qed

lemma invoke_all_append:
  "invoke_all ex s (xs @ ys) =
     (fst (invoke_all ex s xs) @ fst (invoke_all ex (snd (invoke_all ex s xs)) ys),
      snd (invoke_all ex (snd (invoke_all ex s xs)) ys))"
  by (induction xs arbitrary: s) (auto split: prod.splits)

lemma invoke_all_step:
  assumes k: "k < length cs"
    and e: "ex (state_after ex s cs k) (name (cs ! k)) (args (cs ! k)) = (oc, s1)"
  shows "state_after ex s cs (Suc k) = s1"
    and "expected_records ex s cs ! k = record_of oc (name (cs ! k))"
proof -
  let ?pre = "take k cs"
  have t: "take (Suc k) cs = ?pre @ [cs ! k]" using k by (simp add: take_Suc_conv_app_nth)
  have "invoke_all ex (snd (invoke_all ex s ?pre)) [cs ! k] = ([oc], s1)"
    using e by (simp add: state_after_def)
  then show "state_after ex s cs (Suc k) = s1"
    by (simp add: state_after_def t invoke_all_append)
  have c: "cs = ?pre @ cs ! k # drop (Suc k) cs" using k by (simp add: id_take_nth_drop [symmetric])
  have lp: "length (fst (invoke_all ex s ?pre)) = k" using k by (simp add: invoke_all_length)
  have "fst (invoke_all ex s (?pre @ cs ! k # drop (Suc k) cs)) ! k = oc"
    using e lp by (simp add: invoke_all_append state_after_def nth_append split: prod.splits)
  with c have o: "fst (invoke_all ex s cs) ! k = oc" by simp
  show "expected_records ex s cs ! k = record_of oc (name (cs ! k))"
    using k o by (simp add: expected_records_def invoke_all_length)
qed

lemma queue_head:
  assumes "drop k (zip cs [0..<length cs]) = (c, idx) # rest"
  shows "k < length cs \<and> c = cs ! k \<and> idx = k \<and> rest = drop (Suc k) (zip cs [0..<length cs])"
proof -
  let ?z = "zip cs [0..<length cs]"
  have k: "k < length ?z"
  proof (rule ccontr)
    assume "\<not> k < length ?z"
    then have "drop k ?z = []" by simp
    with assms show False by simp
  qed
  then have "?z ! k # drop (Suc k) ?z = drop k ?z" by (rule Cons_nth_drop_Suc)
  with assms have zk: "?z ! k = (c, idx)" and r: "rest = drop (Suc k) ?z" by simp_all
  have zk2: "?z ! k = (cs ! k, k)" using k by simp
  from zk zk2 have "c = cs ! k" and "idx = k" by (metis prod.inject)+
  moreover have "k < length cs" using k by simp
  ultimately show ?thesis using r by blast
qed

lemma executeNext_inv:
  "par_inv ex s cs st k \<Longrightarrow>
     (\<exists>k'. par_inv ex s cs (executeNext ex st) k')
     \<and> (queue (executeNext ex st) \<noteq> [] \<longrightarrow> executing (executeNext ex st) \<noteq> [])"
proof (induction ex st arbitrary: k rule: executeNext.induct)
  case (1 ex st)
  show ?case
  proof (cases "queue st")
    case Nil
    then have "executeNext ex st = st" by (simp add: executeNext.simps [of ex st])
    with "1.prems" Nil show ?thesis by auto
  next
    case (Cons p rest)
    obtain c idx where p: "p = (c, idx)" by (cases p)
    obtain oc s1 where e: "ex (cap_state st) (name c) (args c) = (oc, s1)"
      by (cases "ex (cap_state st) (name c) (args c)")
    let ?st1 = "st\<lparr> queue := rest, executing := executing st @ [(idx, name c, oc)], cap_state := s1 \<rparr>"
    from "1.prems" Cons p have q: "drop k (zip cs [0..<length cs]) = (c, idx) # rest"
      by (simp add: par_inv_def)
    from queue_head [OF q] have k: "k < length cs" and c: "c = cs ! k" and idx: "idx = k"
      and rest: "rest = drop (Suc k) (zip cs [0..<length cs])" by simp_all
    from "1.prems" have cap: "cap_state st = state_after ex s cs k" by (simp add: par_inv_def)
    from e cap c have e': "ex (state_after ex s cs k) (name (cs ! k)) (args (cs ! k)) = (oc, s1)" by simp
    note stp = invoke_all_step [where ex = ex and s = s and cs = cs and k = k, OF k e']
    have inv1: "par_inv ex s cs ?st1 (Suc k)"
      unfolding par_inv_def
    proof (intro conjI)
      show "Suc k \<le> length cs" using k by simp
      show "queue ?st1 = drop (Suc k) (zip cs [0..<length cs])" using rest by simp
      show "cap_state ?st1 = state_after ex s cs (Suc k)" using stp(1) by simp
      show "length (par_results ?st1) = length cs" using "1.prems" by (simp add: par_inv_def)
      show "\<forall>(i, t, oc) \<in> set (executing ?st1). i < Suc k \<and> record_of oc t = expected_records ex s cs ! i"
        using "1.prems" stp(2) idx c by (auto simp: par_inv_def)
      show "\<forall>i < Suc k. i \<in> fst ` set (executing ?st1) \<or> par_results ?st1 ! i = Some (expected_records ex s cs ! i)"
      proof (intro allI impI)
        fix i assume "i < Suc k"
        then consider "i < k" | "i = k" by linarith
        then show "i \<in> fst ` set (executing ?st1) \<or> par_results ?st1 ! i = Some (expected_records ex s cs ! i)"
        proof cases
          case 1
          with "1.prems" have "i \<in> fst ` set (executing st) \<or> par_results st ! i = Some (expected_records ex s cs ! i)"
            by (simp add: par_inv_def)
          then show ?thesis by auto
        next
          case 2
          with idx show ?thesis by (auto simp: image_iff)
        qed
      qed
    qed
    show ?thesis
    proof (cases "length (executing ?st1) < maxConcurrent \<and> length (queue ?st1) > 0")
      case True
      with Cons p e have eq: "executeNext ex st = executeNext ex ?st1"
        by (simp add: executeNext.simps [of ex st] Let_def)
      from "1.IH" [OF Cons p [symmetric] e [symmetric] refl True inv1] eq
      show ?thesis by simp
    next
      case False
      with Cons p e have eq: "executeNext ex st = ?st1"
        by (auto simp: executeNext.simps [of ex st] Let_def)
      with inv1 show ?thesis by auto
    qed
  qed
qed

lemma settle_inv:
  assumes inv: "par_inv ex s cs st k" and j: "j < length (executing st)"
  shows "(\<exists>k'. par_inv ex s cs (settle ex j st) k')
     \<and> (queue (settle ex j st) \<noteq> [] \<longrightarrow> executing (settle ex j st) \<noteq> [])"
proof -
  obtain idx t oc where el: "executing st ! j = (idx, t, oc)" by (cases "executing st ! j")
  let ?rest = "take j (executing st) @ drop (Suc j) (executing st)"
  let ?st2 = "st\<lparr> par_results := (par_results st)[idx := Some (record_of oc t)], executing := ?rest \<rparr>"
  have mem: "(idx, t, oc) \<in> set (executing st)" using el j by (metis nth_mem)
  with inv have ik: "idx < k" and rec: "record_of oc t = expected_records ex s cs ! idx"
    by (auto simp: par_inv_def)
  from inv have len: "length (par_results st) = length cs" and kn: "k \<le> length cs"
    by (simp_all add: par_inv_def)
  have sub: "set ?rest \<subseteq> set (executing st)"
    by (auto dest: in_set_takeD in_set_dropD)
  have split: "executing st = take j (executing st) @ (idx, t, oc) # drop (Suc j) (executing st)"
    using el j by (metis id_take_nth_drop)
  have inv2: "par_inv ex s cs ?st2 k"
    unfolding par_inv_def
  proof (intro conjI)
    show "k \<le> length cs" by (rule kn)
    show "queue ?st2 = drop k (zip cs [0..<length cs])" using inv by (simp add: par_inv_def)
    show "cap_state ?st2 = state_after ex s cs k" using inv by (simp add: par_inv_def)
    show "length (par_results ?st2) = length cs" using len by simp
    show "\<forall>(i, t, oc) \<in> set (executing ?st2). i < k \<and> record_of oc t = expected_records ex s cs ! i"
      using inv sub by (auto simp: par_inv_def)
    show "\<forall>i < k. i \<in> fst ` set (executing ?st2) \<or> par_results ?st2 ! i = Some (expected_records ex s cs ! i)"
    proof (intro allI impI)
      fix i assume i: "i < k"
      show "i \<in> fst ` set (executing ?st2) \<or> par_results ?st2 ! i = Some (expected_records ex s cs ! i)"
      proof (cases "i = idx")
        case True
        with rec ik kn len show ?thesis by simp
      next
        case False
        from inv i have "i \<in> fst ` set (executing st) \<or> par_results st ! i = Some (expected_records ex s cs ! i)"
          by (simp add: par_inv_def)
        then show ?thesis
        proof
          assume "i \<in> fst ` set (executing st)"
          then obtain x where x: "x \<in> set (executing st)" "fst x = i" by auto
          with split have "x \<in> set (take j (executing st)) \<or> x = (idx, t, oc) \<or> x \<in> set (drop (Suc j) (executing st))"
            by (metis Un_iff set_ConsD set_append)
          with x False have "x \<in> set ?rest" by auto
          with x show ?thesis by (auto simp: image_iff)
        next
          assume "par_results st ! i = Some (expected_records ex s cs ! i)"
          with False show ?thesis by simp
        qed
      qed
    qed
  qed
  have "settle ex j st = executeNext ex ?st2" using el by (simp add: settle_def)
  with executeNext_inv [OF inv2] show ?thesis by simp
qed

lemma start_initial_inv:
  "par_inv ex s cs st k \<Longrightarrow> \<exists>k'. par_inv ex s cs (start_initial ex n st) k'"
proof (induction n arbitrary: st k)
  case 0
  then show ?case by auto
next
  case (Suc n)
  from executeNext_inv [OF Suc.prems] obtain k1 where "par_inv ex s cs (executeNext ex st) k1" by blast
  from Suc.IH [OF this] show ?case by simp
qed

lemma start_initial_in_flight:
  "par_inv ex s cs st k \<Longrightarrow> 0 < n \<Longrightarrow>
     queue (start_initial ex n st) \<noteq> [] \<longrightarrow> executing (start_initial ex n st) \<noteq> []"
proof (induction n arbitrary: st k)
  case 0
  then show ?case by simp
next
  case (Suc n)
  from executeNext_inv [OF Suc.prems(1)] obtain k1 where i1: "par_inv ex s cs (executeNext ex st) k1"
    and j1: "queue (executeNext ex st) \<noteq> [] \<longrightarrow> executing (executeNext ex st) \<noteq> []" by blast
  show ?case
  proof (cases n)
    case 0
    with j1 show ?thesis by simp
  next
    case (Suc m)
    then have "0 < n" by simp
    from Suc.IH [OF i1 this] show ?thesis by simp
  qed
qed

lemma drain_inv:
  "par_inv ex s cs st k \<Longrightarrow> (queue st \<noteq> [] \<longrightarrow> executing st \<noteq> []) \<Longrightarrow>
     executing (drain ex sched st) = [] \<and> queue (drain ex sched st) = []
     \<and> (\<exists>k'. par_inv ex s cs (drain ex sched st) k')"
proof (induction ex sched st arbitrary: k rule: drain.induct)
  case (1 ex sched st)
  show ?case
  proof (cases "executing st = []")
    case True
    then have "drain ex sched st = st" by (simp add: drain.simps [of ex sched st])
    with True "1.prems" show ?thesis by auto
  next
    case False
    show ?thesis
    proof (cases sched)
      case Nil
      have j: "0 < length (executing st)" using False by simp
      from settle_inv [OF "1.prems"(1) j] obtain k1 where
        i1: "par_inv ex s cs (settle ex 0 st) k1"
        and j1: "queue (settle ex 0 st) \<noteq> [] \<longrightarrow> executing (settle ex 0 st) \<noteq> []" by blast
      have "drain ex sched st = drain ex [] (settle ex 0 st)"
        using False by (simp add: Nil drain.simps [of ex "[]" st])
      with "1.IH"(1) [OF False Nil i1 j1] show ?thesis by simp
    next
      case (Cons c ks)
      let ?j = "c mod length (executing st)"
      have j: "?j < length (executing st)" using False by simp
      from settle_inv [OF "1.prems"(1) j] obtain k1 where
        i1: "par_inv ex s cs (settle ex ?j st) k1"
        and j1: "queue (settle ex ?j st) \<noteq> [] \<longrightarrow> executing (settle ex ?j st) \<noteq> []" by blast
      have "drain ex sched st = drain ex ks (settle ex ?j st)"
        using False by (simp add: Cons drain.simps [of ex "c # ks" st])
      with "1.IH"(2) [OF False Cons i1 j1] show ?thesis by simp
    qed
  qed
qed

lemma par_inv_final:
  assumes inv: "par_inv ex s cs st k" and q: "queue st = []" and e: "executing st = []"
  shows "par_results st = map Some (expected_records ex s cs)"
    and "cap_state st = snd (invoke_all ex s cs)"
proof -
  from inv q have "drop k (zip cs [0..<length cs]) = []" by (simp add: par_inv_def)
  then have "length cs \<le> k" by simp
  with inv have k: "k = length cs" by (simp add: par_inv_def)
  from inv k show "cap_state st = snd (invoke_all ex s cs)"
    by (simp add: par_inv_def state_after_def)
  have len: "length (expected_records ex s cs) = length cs"
    by (simp add: expected_records_def invoke_all_length)
  show "par_results st = map Some (expected_records ex s cs)"
  proof (rule nth_equalityI)
    show "length (par_results st) = length (map Some (expected_records ex s cs))"
      using inv len by (simp add: par_inv_def)
  next
    fix i assume "i < length (par_results st)"
    with inv k have i: "i < k" by (simp add: par_inv_def)
    with inv e have "par_results st ! i = Some (expected_records ex s cs ! i)"
      by (simp add: par_inv_def)
    with i k len show "par_results st ! i = map Some (expected_records ex s cs) ! i" by simp
  qed
qed

lemma par_inv_initial:
  "par_inv ex s cs \<lparr> queue = zip cs [0..<length cs], executing = [],
       par_results = replicate (length cs) None, cap_state = s \<rparr> 0"
  by (simp add: par_inv_def state_after_def)

lemma executeParallel_correct:
  "executeParallel ex s sched cs = (map Some (expected_records ex s cs), snd (invoke_all ex s cs))"
proof -
  let ?st0 = "\<lparr> queue = zip cs [0..<length cs], executing = [],
       par_results = replicate (length cs) None, cap_state = s \<rparr>"
  let ?n = "min maxConcurrent (length cs)"
  let ?st1 = "start_initial ex ?n ?st0"
  note i0 = par_inv_initial [where ex = ex and s = s and cs = cs]
  from start_initial_inv [where n = ?n, OF i0] obtain k1 where i1: "par_inv ex s cs ?st1 k1" by blast
  have j1: "queue ?st1 \<noteq> [] \<longrightarrow> executing ?st1 \<noteq> []"
  proof (cases "cs = []")
    case True
    then show ?thesis by simp
  next
    case False
    then have "0 < ?n" by (simp add: maxConcurrent_def)
    from start_initial_in_flight [OF i0 this] show ?thesis .
  qed
  from drain_inv [OF i1 j1, of sched] obtain k2 where
    e: "executing (drain ex sched ?st1) = []" and q: "queue (drain ex sched ?st1) = []"
    and i2: "par_inv ex s cs (drain ex sched ?st1) k2" by blast
  from par_inv_final [OF i2 q e] show ?thesis
    by (simp add: executeParallel_def Let_def)
qed

lemma invoke_all_stateless:
  "invoke_all (\<lambda>s n a. (f n a, s)) s cs = (map (\<lambda>c. f (name c) (args c)) cs, s)"
  by (induction cs) simp_all

text \<open>
  C5: for every schedule of completions, \<open>executeParallel\<close> returns one entry per
  call, and the entry at index \<open>i\<close> is the entry of the outcome of the \<open>i\<close>-th call:
  a success entry for a fulfilled call, a failure entry for a rejected one, each with
  the call's tool name. Every call is invoked, whatever the outcomes of the others: the
  capability ends in the state that invoking all calls in input order gives. The result
  does not depend on the schedule. For a capability without state the entry at index
  \<open>i\<close> is the entry of its outcome on the name and arguments of the \<open>i\<close>-th call.
\<close>

theorem executeParallel_results_by_index:
  "length (fst (executeParallel ex s sched toolCalls)) = length toolCalls
   \<and> (\<forall>i < length toolCalls.
         fst (executeParallel ex s sched toolCalls) ! i
           = Some (record_of (fst (invoke_all ex s toolCalls) ! i) (name (toolCalls ! i))))
   \<and> snd (executeParallel ex s sched toolCalls) = snd (invoke_all ex s toolCalls)
   \<and> executeParallel ex s sched toolCalls = executeParallel ex s sched' toolCalls
   \<and> executeParallel (\<lambda>s n a. (f n a, s)) s sched toolCalls
       = (map (\<lambda>c. Some (record_of (f (name c) (args c)) (name c))) toolCalls, s)"
proof (intro conjI allI impI)
  show "length (fst (executeParallel ex s sched toolCalls)) = length toolCalls"
    by (simp add: executeParallel_correct expected_records_def invoke_all_length)
  show "snd (executeParallel ex s sched toolCalls) = snd (invoke_all ex s toolCalls)"
    by (simp add: executeParallel_correct)
  show "executeParallel ex s sched toolCalls = executeParallel ex s sched' toolCalls"
    by (simp add: executeParallel_correct)
  show "executeParallel (\<lambda>s n a. (f n a, s)) s sched toolCalls
       = (map (\<lambda>c. Some (record_of (f (name c) (args c)) (name c))) toolCalls, s)"
    by (simp add: executeParallel_correct expected_records_def invoke_all_stateless zip_map2
          zip_same_conv_map)
next
  fix i assume "i < length toolCalls"
  then show "fst (executeParallel ex s sched toolCalls) ! i
           = Some (record_of (fst (invoke_all ex s toolCalls) ! i) (name (toolCalls ! i)))"
    by (simp add: executeParallel_correct expected_records_def invoke_all_length)
qed

theorem executeParallel_results_by_index_witness:
  "length (fst (executeParallel flaky 0 [2, 0, 1]
       [call ''a'', call ''bad'', call ''c'', call ''d'', call ''e'', call ''f'', call ''g'']))
     = length [call ''a'', call ''bad'', call ''c'', call ''d'', call ''e'', call ''f'', call ''g'']
   \<and> fst (executeParallel flaky 0 [2, 0, 1]
       [call ''a'', call ''bad'', call ''c'', call ''d'', call ''e'', call ''f'', call ''g'']) ! 1
     = Some (FailureRec ''boom'' ''bad'')
   \<and> fst (executeParallel flaky 0 [2, 0, 1]
       [call ''a'', call ''bad'', call ''c'', call ''d'', call ''e'', call ''f'', call ''g'']) ! 6
     = Some (SuccessRec ''g!'' ''g'')
   \<and> snd (executeParallel flaky 0 [2, 0, 1]
       [call ''a'', call ''bad'', call ''c'', call ''d'', call ''e'', call ''f'', call ''g'']) = 7"
proof -
  let ?cs = "[call ''a'', call ''bad'', call ''c'', call ''d'', call ''e'', call ''f'', call ''g'']"
  have ia: "invoke_all flaky 0 ?cs
      = ([Fulfilled ''a!'', Rejected ''boom'', Fulfilled ''c!'', Fulfilled ''d!'', Fulfilled ''e!'',
          Fulfilled ''f!'', Fulfilled ''g!''], 7)"
    by (simp add: flaky_def call_def)
  note t = executeParallel_results_by_index [where ex = flaky and s = 0 and sched = "[2, 0, 1]"
      and toolCalls = ?cs]
  from t have t1: "length (fst (executeParallel flaky 0 [2, 0, 1] ?cs)) = length ?cs" by blast
  have i1: "1 < length ?cs" and i6: "6 < length ?cs" by simp_all
  from t i1 have "fst (executeParallel flaky 0 [2, 0, 1] ?cs) ! 1
      = Some (record_of (fst (invoke_all flaky 0 ?cs) ! 1) (name (?cs ! 1)))" by blast
  then have t2: "fst (executeParallel flaky 0 [2, 0, 1] ?cs) ! 1 = Some (FailureRec ''boom'' ''bad'')"
    by (simp only: ia, simp add: record_of_def call_def)
  from t i6 have "fst (executeParallel flaky 0 [2, 0, 1] ?cs) ! 6
      = Some (record_of (fst (invoke_all flaky 0 ?cs) ! 6) (name (?cs ! 6)))" by blast
  then have t3: "fst (executeParallel flaky 0 [2, 0, 1] ?cs) ! 6 = Some (SuccessRec ''g!'' ''g'')"
    by (simp only: ia, simp add: record_of_def call_def)
  from t have "snd (executeParallel flaky 0 [2, 0, 1] ?cs) = snd (invoke_all flaky 0 ?cs)" by blast
  then have t4: "snd (executeParallel flaky 0 [2, 0, 1] ?cs) = 7" by (simp only: ia, simp)
  from t1 t2 t3 t4 show ?thesis by blast
qed

section \<open>Sessions: theorems\<close>

text \<open>Every command that \<open>execute\<close> sends to \<open>_handleCd\<close> matches the pattern of \<open>_handleCd\<close>.\<close>

lemma line_terminator_is_space: "is_line_terminator c \<Longrightarrow> is_space c"
  by (auto simp: is_line_terminator_def is_space_def)

lemma trim_decompose:
  "\<exists>p t. s = p @ trim s @ t \<and> (\<forall>c\<in>set p. is_space c) \<and> (\<forall>c\<in>set t. is_space c)"
proof -
  let ?u = "dropWhile is_space s"
  have 1: "s = takeWhile is_space s @ ?u" by simp
  have "rev (dropWhile is_space (rev ?u)) @ rev (takeWhile is_space (rev ?u))
      = rev (takeWhile is_space (rev ?u) @ dropWhile is_space (rev ?u))"
    by (simp only: rev_append)
  also have "\<dots> = rev (rev ?u)" by (simp only: takeWhile_dropWhile_id)
  also have "\<dots> = ?u" by simp
  finally have 2: "?u = trim s @ rev (takeWhile is_space (rev ?u))"
    by (simp add: trim_def)
  have 3: "\<forall>c\<in>set (takeWhile is_space s). is_space c" by (auto dest: set_takeWhileD)
  have 4: "\<forall>c\<in>set (rev (takeWhile is_space (rev ?u))). is_space c" by (auto dest: set_takeWhileD)
  from 1 2 have "s = takeWhile is_space s @ trim s @ rev (takeWhile is_space (rev ?u))" by simp
  with 3 4 show ?thesis by blast
qed

lemma trim_last: "trim s \<noteq> [] \<Longrightarrow> \<not> is_space (last (trim s))"
proof -
  assume ne: "trim s \<noteq> []"
  let ?d = "dropWhile is_space (rev (dropWhile is_space s))"
  from ne have d: "?d \<noteq> []" by (simp add: trim_def)
  then have "\<not> is_space (hd ?d)" by (rule hd_dropWhile)
  moreover have "last (trim s) = hd ?d" using d by (simp add: trim_def last_rev)
  ultimately show ?thesis by simp
qed

lemma match_cd_here_after_cd:
  assumes x: "x \<in> set r" "\<not> is_space x"
  shows "\<exists>g. match_cd_here (''cd '' @ r @ t) = Some g"
proof -
  let ?rest = "CHR '' '' # r @ t"
  let ?n = "length (takeWhile is_space ?rest)"
  have sp: "is_space (CHR '' '')" by (simp add: is_space_def)
  have n1: "1 \<le> ?n" using sp by simp
  have dw: "dropWhile is_space ?rest \<noteq> []"
    using x by (auto simp: dropWhile_eq_Nil_conv)
  have dr: "drop ?n ?rest = dropWhile is_space ?rest" by (simp only: dropWhile_eq_drop)
  from dw have "\<not> is_space (hd (dropWhile is_space ?rest))" by (rule hd_dropWhile)
  then have nl: "\<not> is_line_terminator (hd (drop ?n ?rest))"
    using dr line_terminator_is_space by metis
  have ne: "drop ?n ?rest \<noteq> []" using dr dw by simp
  have "[1..<Suc ?n] = [1..<?n] @ [?n]" using n1 by simp
  then have rv: "rev [1..<Suc ?n] = ?n # rev [1..<?n]" by simp
  have f: "find (\<lambda>k. drop k ?rest \<noteq> [] \<and> \<not> is_line_terminator (hd (drop k ?rest))) (rev [1..<Suc ?n]) = Some ?n"
    unfolding rv using ne nl by simp
  have st: "startsWith (''cd '' @ r @ t) ''cd''" by (simp add: startsWith_def)
  have d2: "drop 2 (''cd '' @ r @ t) = ?rest" by simp
  show ?thesis
    unfolding match_cd_here_def using st by (simp only: d2 Let_def f if_True option.case) simp
qed

lemma match_cd_skip:
  "\<exists>g. match_cd u = Some g \<Longrightarrow> \<exists>g. match_cd (p @ u) = Some g"
proof (induction p)
  case Nil
  then show ?case by simp
next
  case (Cons c p)
  then obtain g where "match_cd (p @ u) = Some g" by blast
  then show ?case by (cases "match_cd_here (c # p @ u)") simp_all
qed

lemma match_cd_of_here: "match_cd_here u = Some g \<Longrightarrow> \<exists>g. match_cd u = Some g"
  by (cases u) (simp_all add: match_cd_here_def startsWith_def)

lemma cd_command_matches:
  assumes "startsWith (trim command) ''cd ''"
  shows "\<exists>g. match_cd command = Some g"
proof -
  from assms have tk: "take 3 (trim command) = ''cd ''"
    by (simp add: startsWith_def numeral_3_eq_3)
  then have v: "trim command = ''cd '' @ drop 3 (trim command)"
    by (metis append_take_drop_id)
  let ?r = "drop 3 (trim command)"
  from v have ne: "trim command \<noteq> []" by auto
  with trim_last have nl: "\<not> is_space (last (trim command))" by blast
  have sp: "is_space (CHR '' '')" by (simp add: is_space_def)
  have rne: "?r \<noteq> []"
  proof
    assume "?r = []"
    with v have "trim command = ''cd ''" by simp
    then have "last (trim command) = CHR '' ''" by simp
    with nl sp show False by simp
  qed
  with v have lr: "last (trim command) = last ?r" by (metis last_appendR)
  from rne have x1: "last ?r \<in> set ?r" by (rule last_in_set)
  from nl lr have x2: "\<not> is_space (last ?r)" by metis
  note x = x1 x2
  from trim_decompose [of command] obtain p t where d: "command = p @ trim command @ t" by blast
  from match_cd_here_after_cd [OF x, of t] obtain g where "match_cd_here (''cd '' @ ?r @ t) = Some g"
    by blast
  then have "\<exists>g. match_cd (''cd '' @ ?r @ t) = Some g" by (rule match_cd_of_here)
  then have "\<exists>g. match_cd (p @ ''cd '' @ ?r @ t) = Some g" by (rule match_cd_skip)
  moreover have "command = p @ ''cd '' @ ?r @ t" using d v by (metis append_assoc)
  ultimately show ?thesis by simp
qed

lemma execute_cd:
  "startsWith (trim command) ''cd '' \<Longrightarrow>
   execute w clk child s command options = (Resolved (fst (handleCd w s command)), snd (handleCd w s command))"
  by (simp add: execute_def Let_def split: prod.splits)

text \<open>
  C6: every command that starts with \<open>cd \<close> after trimming matches the pattern of
  \<open>_handleCd\<close>; when \<open>stat\<close> of the resolved target throws, or finds something that
  is not a directory, \<open>execute\<close> resolves at once with exit code 1, empty output and
  the message \<open>cd: no such file or directory\<close> or \<open>cd: not a directory\<close> followed by
  the target, and the session is what it was before the call, its \<open>cwd\<close> included.
\<close>

theorem cd_invalid_directory_keeps_cwd:
  assumes "startsWith (trim command) ''cd ''"
  shows "\<exists>g. match_cd command = Some g
     \<and> (fs_stat w (cd_newCwd w s (cd_target w g)) = None \<longrightarrow>
          execute w clk child s command options
            = (Resolved \<lparr> stdout = '''', stderr = ''cd: no such file or directory: '' @ cd_target w g,
                           exitCode = Some 1, duration = 0, background = False, pid = None \<rparr>, s))
     \<and> (fs_stat w (cd_newCwd w s (cd_target w g)) = Some NotDirectory \<longrightarrow>
          execute w clk child s command options
            = (Resolved \<lparr> stdout = '''', stderr = ''cd: not a directory: '' @ cd_target w g,
                           exitCode = Some 1, duration = 0, background = False, pid = None \<rparr>, s))"
proof -
  from cd_command_matches [OF assms] obtain g where g: "match_cd command = Some g" by blast
  have 1: "fs_stat w (cd_newCwd w s (cd_target w g)) = None \<longrightarrow>
          execute w clk child s command options
            = (Resolved \<lparr> stdout = '''', stderr = ''cd: no such file or directory: '' @ cd_target w g,
                           exitCode = Some 1, duration = 0, background = False, pid = None \<rparr>, s)"
    using g by (simp add: execute_cd [OF assms] handleCd_def Let_def cd_result_def)
  have 2: "fs_stat w (cd_newCwd w s (cd_target w g)) = Some NotDirectory \<longrightarrow>
          execute w clk child s command options
            = (Resolved \<lparr> stdout = '''', stderr = ''cd: not a directory: '' @ cd_target w g,
                           exitCode = Some 1, duration = 0, background = False, pid = None \<rparr>, s)"
    using g by (simp add: execute_cd [OF assms] handleCd_def Let_def cd_result_def)
  show ?thesis
  proof (intro exI conjI)
    show "match_cd command = Some g" by (rule g)
    show "fs_stat w (cd_newCwd w s (cd_target w g)) = None \<longrightarrow>
          execute w clk child s command options
            = (Resolved \<lparr> stdout = '''', stderr = ''cd: no such file or directory: '' @ cd_target w g,
                           exitCode = Some 1, duration = 0, background = False, pid = None \<rparr>, s)"
      by (rule 1)
    show "fs_stat w (cd_newCwd w s (cd_target w g)) = Some NotDirectory \<longrightarrow>
          execute w clk child s command options
            = (Resolved \<lparr> stdout = '''', stderr = ''cd: not a directory: '' @ cd_target w g,
                           exitCode = Some 1, duration = 0, background = False, pid = None \<rparr>, s)"
      by (rule 2)
  qed
qed

lemmas cd_eval = example_world_def example_session_def ShellSession_new_def match_cd_here_def
  startsWith_def is_space_def is_line_terminator_def cd_target_def cd_newCwd_def trim_def
  strip_quotes_def is_quote_def home_dir_def Let_def

theorem cd_invalid_directory_keeps_cwd_witness:
  "startsWith (trim ''cd /nope'') ''cd ''
   \<and> match_cd ''cd /nope'' = Some ''/nope''
   \<and> fs_stat example_world (cd_newCwd example_world example_session (cd_target example_world ''/nope'')) = None
   \<and> execute example_world example_clock 7 example_session ''cd /nope'' default_options
       = (Resolved \<lparr> stdout = '''', stderr = ''cd: no such file or directory: /nope'',
                      exitCode = Some 1, duration = 0, background = False, pid = None \<rparr>, example_session)
   \<and> cwd example_session = ''/work''
   \<and> match_cd ''  cd etc/../../etc/passwd '' = Some ''etc/../../etc/passwd ''
   \<and> execute example_world example_clock 7 (example_session\<lparr> cwd := '''' \<rparr>) ''cd /etc/passwd'' default_options
       = (Resolved \<lparr> stdout = '''', stderr = ''cd: not a directory: /etc/passwd'',
                      exitCode = Some 1, duration = 0, background = False, pid = None \<rparr>,
          example_session\<lparr> cwd := '''' \<rparr>)"
proof -
  have h1: "startsWith (trim ''cd /nope'') ''cd ''" by (simp add: cd_eval)
  have m1: "match_cd ''cd /nope'' = Some ''/nope''" by (simp add: cd_eval)
  have t1: "cd_target example_world ''/nope'' = ''/nope''" by (simp add: cd_eval)
  have f1: "fs_stat example_world (cd_newCwd example_world example_session (cd_target example_world ''/nope'')) = None"
    by (simp add: cd_eval)
  from cd_invalid_directory_keeps_cwd [OF h1, of example_world example_session example_clock 7 default_options]
    m1 f1 t1
  have e1: "execute example_world example_clock 7 example_session ''cd /nope'' default_options
       = (Resolved \<lparr> stdout = '''', stderr = ''cd: no such file or directory: /nope'',
                      exitCode = Some 1, duration = 0, background = False, pid = None \<rparr>, example_session)"
    by auto
  have c: "cwd example_session = ''/work''" by (simp add: cd_eval)
  have m3: "match_cd ''  cd etc/../../etc/passwd '' = Some ''etc/../../etc/passwd ''" by (simp add: cd_eval)
  have h2: "startsWith (trim ''cd /etc/passwd'') ''cd ''" by (simp add: cd_eval)
  have m2: "match_cd ''cd /etc/passwd'' = Some ''/etc/passwd''" by (simp add: cd_eval)
  have t2: "cd_target example_world ''/etc/passwd'' = ''/etc/passwd''" by (simp add: cd_eval)
  have f2: "fs_stat example_world (cd_newCwd example_world (example_session\<lparr> cwd := '''' \<rparr>)
       (cd_target example_world ''/etc/passwd'')) = Some NotDirectory"
    by (simp add: cd_eval)
  from cd_invalid_directory_keeps_cwd [OF h2, of example_world "example_session\<lparr> cwd := '''' \<rparr>" example_clock 7 default_options]
    m2 f2 t2
  have e2: "execute example_world example_clock 7 (example_session\<lparr> cwd := '''' \<rparr>) ''cd /etc/passwd'' default_options
       = (Resolved \<lparr> stdout = '''', stderr = ''cd: not a directory: /etc/passwd'',
                      exitCode = Some 1, duration = 0, background = False, pid = None \<rparr>,
          example_session\<lparr> cwd := '''' \<rparr>)"
    by auto
  show ?thesis by (intro conjI h1 m1 f1 e1 c m3 e2)
qed

text \<open>
  C7: every command that starts with \<open>cd \<close> after trimming matches the pattern of
  \<open>_handleCd\<close>; when the target (quotes removed, \<open>~\<close> expanded, a relative path
  resolved against the session's \<open>cwd\<close>) is a directory, \<open>execute\<close> resolves at once,
  without a child, with the resolved path as output, exit code 0 and duration 0, and the
  session differs from the one before the call in its \<open>cwd\<close> only, which is the resolved
  path.
\<close>

theorem cd_valid_directory_sets_cwd:
  assumes "startsWith (trim command) ''cd ''"
  shows "\<exists>g. match_cd command = Some g
     \<and> (fs_stat w (cd_newCwd w s (cd_target w g)) = Some Directory \<longrightarrow>
          execute w clk child s command options
            = (Resolved \<lparr> stdout = cd_newCwd w s (cd_target w g), stderr = '''',
                           exitCode = Some 0, duration = 0, background = False, pid = None \<rparr>,
               s\<lparr> cwd := cd_newCwd w s (cd_target w g) \<rparr>))"
proof -
  from cd_command_matches [OF assms] obtain g where g: "match_cd command = Some g" by blast
  have 1: "fs_stat w (cd_newCwd w s (cd_target w g)) = Some Directory \<longrightarrow>
          execute w clk child s command options
            = (Resolved \<lparr> stdout = cd_newCwd w s (cd_target w g), stderr = '''',
                           exitCode = Some 0, duration = 0, background = False, pid = None \<rparr>,
               s\<lparr> cwd := cd_newCwd w s (cd_target w g) \<rparr>)"
    using g by (simp add: execute_cd [OF assms] handleCd_def Let_def cd_result_def)
  show ?thesis
  proof (intro exI conjI)
    show "match_cd command = Some g" by (rule g)
    show "fs_stat w (cd_newCwd w s (cd_target w g)) = Some Directory \<longrightarrow>
          execute w clk child s command options
            = (Resolved \<lparr> stdout = cd_newCwd w s (cd_target w g), stderr = '''',
                           exitCode = Some 0, duration = 0, background = False, pid = None \<rparr>,
               s\<lparr> cwd := cd_newCwd w s (cd_target w g) \<rparr>)"
      by (rule 1)
  qed
qed

theorem cd_valid_directory_sets_cwd_witness:
  "startsWith (trim ''cd /tmp'') ''cd ''
   \<and> execute example_world example_clock 7 example_session ''cd /tmp'' default_options
       = (Resolved \<lparr> stdout = ''/tmp'', stderr = '''', exitCode = Some 0, duration = 0,
                      background = False, pid = None \<rparr>, example_session\<lparr> cwd := ''/tmp'' \<rparr>)
   \<and> startsWith (trim ''  cd  ~ '') ''cd ''
   \<and> execute example_world example_clock 7 example_session ''  cd  ~ '' default_options
       = (Resolved \<lparr> stdout = ''/home/u'', stderr = '''', exitCode = Some 0, duration = 0,
                      background = False, pid = None \<rparr>, example_session\<lparr> cwd := ''/home/u'' \<rparr>)
   \<and> cd_target example_world [CHR 0x22, CHR ''s'', CHR ''u'', CHR ''b'', CHR '' '', CHR ''d'', CHR ''i'', CHR ''r'', CHR 0x22]
       = ''sub dir''
   \<and> cd_newCwd example_world example_session ''sub dir'' = ''/work/sub dir''"
proof -
  have h1: "startsWith (trim ''cd /tmp'') ''cd ''" by (simp add: cd_eval)
  have m1: "match_cd ''cd /tmp'' = Some ''/tmp''" by (simp add: cd_eval)
  have n1: "cd_newCwd example_world example_session (cd_target example_world ''/tmp'') = ''/tmp''"
    by (simp add: cd_eval)
  have f1: "fs_stat example_world ''/tmp'' = Some Directory" by (simp add: cd_eval)
  from cd_valid_directory_sets_cwd [OF h1, of example_world example_session example_clock 7 default_options]
    m1 n1 f1
  have e1: "execute example_world example_clock 7 example_session ''cd /tmp'' default_options
       = (Resolved \<lparr> stdout = ''/tmp'', stderr = '''', exitCode = Some 0, duration = 0,
                      background = False, pid = None \<rparr>, example_session\<lparr> cwd := ''/tmp'' \<rparr>)"
    by auto
  have h2: "startsWith (trim ''  cd  ~ '') ''cd ''" by (simp add: cd_eval)
  have m2: "match_cd ''  cd  ~ '' = Some ''~ ''" by (simp add: cd_eval)
  have n2: "cd_newCwd example_world example_session (cd_target example_world ''~ '') = ''/home/u''"
    by (simp add: cd_eval)
  have f2: "fs_stat example_world ''/home/u'' = Some Directory" by (simp add: cd_eval)
  from cd_valid_directory_sets_cwd [OF h2, of example_world example_session example_clock 7 default_options]
    m2 n2 f2
  have e2: "execute example_world example_clock 7 example_session ''  cd  ~ '' default_options
       = (Resolved \<lparr> stdout = ''/home/u'', stderr = '''', exitCode = Some 0, duration = 0,
                      background = False, pid = None \<rparr>, example_session\<lparr> cwd := ''/home/u'' \<rparr>)"
    by auto
  have q: "cd_target example_world [CHR 0x22, CHR ''s'', CHR ''u'', CHR ''b'', CHR '' '', CHR ''d'', CHR ''i'', CHR ''r'', CHR 0x22]
       = ''sub dir''" by (simp add: cd_eval)
  have r: "cd_newCwd example_world example_session ''sub dir'' = ''/work/sub dir''" by (simp add: cd_eval)
  show ?thesis by (intro conjI h1 e1 h2 e2 q r)
qed

text \<open>
  C1: what the code does for a background command. \<open>execute\<close> registers the record
  of the process under \<open>bg_<time>\<close> and returns a promise that is pending: the value
  with \<open>exitCode = null\<close>, \<open>background = true\<close> and the child's pid is the one that
  the callback of \<open>exec\<close> resolves it with, and that callback runs when the child has
  terminated.
\<close>

theorem background_execute_resolves_in_callback:
  assumes "\<not> startsWith (trim command) ''cd ''" and "opt_background options = Some True"
  shows "\<exists>pend.
       execute w clk child s command options
         = (Pending pend,
            s\<lparr> backgroundProcesses :=
                 map_set (''bg_'' @ string_of_nat (t_bg clk))
                   \<lparr> bg_process = child, bg_command = command, bg_startTime = t_start clk,
                     bg_stdout = [], bg_stderr = [], bg_completed = False, bg_exitCode = None \<rparr>
                   (backgroundProcesses s) \<rparr>)
     \<and> p_runInBackground pend
     \<and> p_child pend = child
     \<and> (\<forall>s1 err out errout now.
            fst (exec_callback s1 pend err out errout now)
              = \<lparr> stdout = '''', stderr = '''', exitCode = None, duration = 0,
                  background = True, pid = Some child \<rparr>)"
  using assms by (simp add: execute_def exec_callback_def Let_def)

theorem background_execute_resolves_in_callback_witness:
  "\<not> startsWith (trim ''sleep 60'') ''cd ''
   \<and> opt_background in_background = Some True
   \<and> execute example_world example_clock 7 example_session ''sleep 60'' in_background
       = (Pending \<lparr> p_command = ''sleep 60'', p_timestamp = 1000, p_cwd = ''/work'',
                     p_startTime = 1000, p_timeout = 120000, p_runInBackground = True, p_child = 7 \<rparr>,
          example_session\<lparr> backgroundProcesses :=
             [(''bg_1001'', \<lparr> bg_process = 7, bg_command = ''sleep 60'', bg_startTime = 1000,
                 bg_stdout = [], bg_stderr = [], bg_completed = False, bg_exitCode = None \<rparr>)] \<rparr>)
   \<and> fst (exec_callback example_session
          \<lparr> p_command = ''sleep 60'', p_timestamp = 1000, p_cwd = ''/work'',
            p_startTime = 1000, p_timeout = 120000, p_runInBackground = True, p_child = 7 \<rparr>
          None '''' '''' 61000)
       = \<lparr> stdout = '''', stderr = '''', exitCode = None, duration = 0, background = True, pid = Some 7 \<rparr>"
proof -
  have h1: "\<not> startsWith (trim ''sleep 60'') ''cd ''" by (simp add: cd_eval)
  have h2: "opt_background in_background = Some True" by (simp add: in_background_def)
  have e: "execute example_world example_clock 7 example_session ''sleep 60'' in_background
       = (Pending \<lparr> p_command = ''sleep 60'', p_timestamp = 1000, p_cwd = ''/work'',
                     p_startTime = 1000, p_timeout = 120000, p_runInBackground = True, p_child = 7 \<rparr>,
          example_session\<lparr> backgroundProcesses :=
             [(''bg_1001'', \<lparr> bg_process = 7, bg_command = ''sleep 60'', bg_startTime = 1000,
                 bg_stdout = [], bg_stderr = [], bg_completed = False, bg_exitCode = None \<rparr>)] \<rparr>)"
    using h1 by (simp add: execute_def Let_def in_background_def default_options_def example_clock_def
        example_session_def ShellSession_new_def example_world_def string_of_nat.simps digit_char_def)
  from background_execute_resolves_in_callback [OF h1 h2, of example_world example_clock 7 example_session] e
  have c: "fst (exec_callback example_session
          \<lparr> p_command = ''sleep 60'', p_timestamp = 1000, p_cwd = ''/work'',
            p_startTime = 1000, p_timeout = 120000, p_runInBackground = True, p_child = 7 \<rparr>
          None '''' '''' 61000)
       = \<lparr> stdout = '''', stderr = '''', exitCode = None, duration = 0, background = True, pid = Some 7 \<rparr>"
    by auto
  show ?thesis by (intro conjI h1 h2 e c)
qed

section \<open>Session manager: theorems\<close>

lemma map_of_map_set: "map_of (map_set k v kvs) k' = (if k' = k then Some v else map_of kvs k')"
  by (induction kvs) auto

lemma map_of_map_delete: "k' \<noteq> k \<Longrightarrow> map_of (map_delete k kvs) k' = map_of kvs k'"
  by (induction kvs) (auto simp: map_delete_def)

lemma default_present_new: "default_present (ShellManager_new w now)"
  by (simp add: default_present_def ShellManager_new_def createSession_def Let_def)

lemma default_present_get:
  "default_present m \<Longrightarrow> default_present (snd (getSession w now m i))"
  by (auto simp: default_present_def getSession_def createSession_def Let_def map_of_map_set
      split: option.splits)

lemma default_present_delete:
  "default_present m \<Longrightarrow> default_present (snd (deleteSession m i))"
  by (auto simp: default_present_def deleteSession_def map_of_map_delete split: option.splits)

lemma default_present_session:
  "default_present m \<Longrightarrow> map_of (sessions m) i = Some s \<Longrightarrow>
   default_present (m\<lparr> sessions := map_set i s' (sessions m) \<rparr>)"
  by (auto simp: default_present_def map_of_map_set)

lemma reachable_default_present: "reachable w m \<Longrightarrow> default_present m"
proof (induction rule: reachable.induct)
  case (reach_new now)
  show ?case by (rule default_present_new)
next
  case (reach_get m now i)
  then show ?case by (simp add: default_present_get)
next
  case (reach_delete m i)
  then show ?case by (simp add: default_present_delete)
next
  case (reach_session m i s s')
  then show ?case by (simp add: default_present_session)
qed

text \<open>
  C9: the constructor creates the session \<open>default\<close>, and in every reachable state of
  a manager a session is stored under that id: \<open>getSession\<close> without an id or with
  the empty id returns it and changes nothing, and \<open>deleteSession\<close> on the id throws
  \<open>Cannot delete default session\<close> and changes nothing.
\<close>

theorem default_session_always_exists:
  assumes "reachable w m"
  shows "map_of (sessions (ShellManager_new w t)) ''default'' = Some (ShellSession_new w ''default'' t)
     \<and> (\<exists>d. map_of (sessions m) ''default'' = Some d
            \<and> getSession w now m None = (d, m)
            \<and> getSession w now m (Some '''') = (d, m))
     \<and> deleteSession m ''default'' = (Inl (Error ''Cannot delete default session''), m)"
proof -
  from reachable_default_present [OF assms] obtain d where
    di: "defaultSessionId m = ''default''" and d: "map_of (sessions m) ''default'' = Some d"
    by (auto simp: default_present_def)
  have 1: "map_of (sessions (ShellManager_new w t)) ''default'' = Some (ShellSession_new w ''default'' t)"
    by (simp add: ShellManager_new_def createSession_def Let_def)
  have 2: "getSession w now m None = (d, m)" using di d by (simp add: getSession_def js_or_def Let_def)
  have 3: "getSession w now m (Some '''') = (d, m)" using di d by (simp add: getSession_def js_or_def Let_def)
  have 4: "deleteSession m ''default'' = (Inl (Error ''Cannot delete default session''), m)"
    using di by (simp add: deleteSession_def)
  from d 2 3 have "\<exists>d. map_of (sessions m) ''default'' = Some d
            \<and> getSession w now m None = (d, m)
            \<and> getSession w now m (Some '''') = (d, m)" by blast
  with 1 4 show ?thesis by (intro conjI)
qed

theorem default_session_always_exists_witness:
  "reachable example_world busy_manager
   \<and> map_of (sessions busy_manager) ''default'' = Some (example_session\<lparr> cwd := ''/tmp'' \<rparr>)
   \<and> map_of (sessions busy_manager) ''build'' = None
   \<and> getSession example_world 5 busy_manager None = (example_session\<lparr> cwd := ''/tmp'' \<rparr>, busy_manager)
   \<and> getSession example_world 5 busy_manager (Some '''') = (example_session\<lparr> cwd := ''/tmp'' \<rparr>, busy_manager)
   \<and> deleteSession busy_manager ''default'' = (Inl (Error ''Cannot delete default session''), busy_manager)"
proof -
  let ?m0 = "ShellManager_new example_world 0"
  let ?m1 = "snd (getSession example_world 1 ?m0 (Some ''build''))"
  let ?s' = "snd (execute example_world example_clock 7 example_session ''cd /tmp'' default_options)"
  let ?m2 = "?m1\<lparr> sessions := map_set ''default'' ?s' (sessions ?m1) \<rparr>"
  have r0: "reachable example_world ?m0" by (rule reach_new)
  then have r1: "reachable example_world ?m1" by (rule reach_get)
  have g1: "map_of (sessions ?m1) ''default'' = Some example_session"
    by (simp add: ShellManager_new_def createSession_def getSession_def js_or_def Let_def example_session_def)
  have st: "session_step example_world example_session ?s'"
    by (rule step_execute [of example_world example_clock 7 example_session "''cd /tmp''" default_options
          "fst (execute example_world example_clock 7 example_session ''cd /tmp'' default_options)"]) simp
  from r1 g1 st have r2: "reachable example_world ?m2" by (rule reach_session)
  then have "reachable example_world (snd (deleteSession ?m2 ''build''))" by (rule reach_delete)
  then have r: "reachable example_world busy_manager" by (simp add: busy_manager_def Let_def)
  have s': "?s' = example_session\<lparr> cwd := ''/tmp'' \<rparr>"
    by (simp add: execute_def handleCd_def cd_result_def cd_eval)
  have d: "map_of (sessions busy_manager) ''default'' = Some (example_session\<lparr> cwd := ''/tmp'' \<rparr>)"
    unfolding busy_manager_def Let_def s'
    by (simp add: ShellManager_new_def createSession_def getSession_def js_or_def Let_def deleteSession_def
        map_delete_def example_session_def)
  have b: "map_of (sessions busy_manager) ''build'' = None"
    unfolding busy_manager_def Let_def s'
    by (simp add: ShellManager_new_def createSession_def getSession_def js_or_def Let_def deleteSession_def
        map_delete_def example_session_def)
  note t = default_session_always_exists [OF r, of 0 5]
  from t d have g: "getSession example_world 5 busy_manager None = (example_session\<lparr> cwd := ''/tmp'' \<rparr>, busy_manager)"
    by auto
  from t d have g': "getSession example_world 5 busy_manager (Some '''') = (example_session\<lparr> cwd := ''/tmp'' \<rparr>, busy_manager)"
    by auto
  from t have x: "deleteSession busy_manager ''default'' = (Inl (Error ''Cannot delete default session''), busy_manager)"
    by blast
  show ?thesis by (intro conjI r d b g g' x)
qed

end
